theory Spec2Isabelle
  imports Main
begin

section \<open>Data model (internal/models/taskmodel)\<close>

text \<open>
  A task identifier is a \<open>uuid.UUID\<close>, an opaque value that is only ever compared and
  used as a key; it is modelled as a natural number. \<open>time.Time\<close> and \<open>time.Duration\<close>
  are counted in nanoseconds (a \<open>Duration\<close> is an \<open>int64\<close> of nanoseconds; every
  duration the service computes is the difference of two clock readings of one process
  or a small multiple of a minute, far inside that range).
\<close>

type_synonym uuid = nat
type_synonym addr = nat

text \<open>
  \<open>TaskStatus\<close> is a string type with three declared constants; \<open>StatusUnset\<close> is its
  zero value \<open>""\<close>, which \<open>new(Task)\<close> and \<open>GetTaskStatus\<close> produce.
\<close>

datatype TaskStatus = StatusUnset | StatusDone | StatusProcessing | StatusFailed

record Task =
  ID :: uuid
  Name :: string
  Status :: TaskStatus
  CreatedAt :: int
  ProcessingTime :: int

definition IsDone :: "Task \<Rightarrow> bool" where
  "IsDone t = (Status t = StatusDone)"

definition IsFailed :: "Task \<Rightarrow> bool" where
  "IsFailed t = (Status t = StatusFailed)"

definition IsProcessing :: "Task \<Rightarrow> bool" where
  "IsProcessing t = (Status t = StatusProcessing)"

definition NewTask :: "uuid \<Rightarrow> (Task \<Rightarrow> Task) list \<Rightarrow> Task" where
  "NewTask newID opts =
     fold (\<lambda>opt task. opt task) opts
       \<lparr>ID = newID, Name = [], Status = StatusUnset, CreatedAt = 0, ProcessingTime = 0\<rparr>"

definition WithName :: "string \<Rightarrow> Task \<Rightarrow> Task" where
  "WithName name t = t\<lparr>Name := name\<rparr>"

definition SetStatus :: "TaskStatus \<Rightarrow> Task \<Rightarrow> Task" where
  "SetStatus status t = t\<lparr>Status := status\<rparr>"

definition Nanosecond :: int where "Nanosecond = 1"
definition Second :: int where "Second = 1000000000 * Nanosecond"
definition Minute :: int where "Minute = 60 * Second"

text \<open>
  The errors of the repository and the service are \<open>fmt.Errorf\<close> values. Each distinct
  message is a constructor; \<open>Wrap msg e\<close> is \<open>fmt.Errorf("msg: %w", e)\<close>.
\<close>

datatype error =
    TaskNil
  | AlreadyExists uuid
  | NotFound uuid
  | InvalidData uuid
  | ShutdownTimeout
  | Wrap string error

section \<open>The in-memory task repository, with its pointers\<close>

text \<open>
  \<open>InMemoryTaskRepository.store\<close> is a \<open>sync.Map\<close> from identifiers to \<open>*taskmodel.Task\<close>.
  The records live in a heap of cells; \<open>next_free\<close> is the address that \<open>&taskmodel.Task{...}\<close>
  allocates. A \<open>*Task\<close> argument is an \<open>addr option\<close>, \<open>None\<close> being \<open>nil\<close>.
\<close>

record memory =
  cells :: "addr \<Rightarrow> Task"
  next_free :: addr

record InMemoryTaskRepository =
  store :: "uuid \<Rightarrow> addr option"

definition NewInMemoryTaskRepository :: InMemoryTaskRepository where
  "NewInMemoryTaskRepository = \<lparr>store = (\<lambda>_. None)\<rparr>"

definition write_cell :: "memory \<Rightarrow> addr \<Rightarrow> Task \<Rightarrow> memory" where
  "write_cell m p t = m\<lparr>cells := (cells m)(p := t)\<rparr>"

definition copyTask :: "memory \<Rightarrow> addr option \<Rightarrow> memory \<times> addr option" where
  "copyTask m original =
     (case original of
        None \<Rightarrow> (m, None)
      | Some p \<Rightarrow>
          (let orig = cells m p in
           (m\<lparr>cells := (cells m)(next_free m :=
                 \<lparr>ID = ID orig, Name = Name orig, Status = Status orig,
                  CreatedAt = CreatedAt orig, ProcessingTime = ProcessingTime orig\<rparr>),
               next_free := Suc (next_free m)\<rparr>,
            Some (next_free m))))"

definition Create ::
  "InMemoryTaskRepository \<Rightarrow> memory \<Rightarrow> int \<Rightarrow> addr option
     \<Rightarrow> error option \<times> InMemoryTaskRepository \<times> memory" where
  "Create r m now task =
     (case task of
        None \<Rightarrow> (Some TaskNil, r, m)
      | Some p \<Rightarrow>
          (if store r (ID (cells m p)) \<noteq> None
           then (Some (AlreadyExists (ID (cells m p))), r, m)
           else
             (let m1 = write_cell m p ((cells m p)\<lparr>CreatedAt := now\<rparr>);
                  (m2, taskCopy) = copyTask m1 (Some p)
              in (None, r\<lparr>store := (store r)(ID (cells m1 p) := taskCopy)\<rparr>, m2))))"

definition GetByID ::
  "InMemoryTaskRepository \<Rightarrow> memory \<Rightarrow> uuid \<Rightarrow> (error + addr) \<times> memory" where
  "GetByID r m taskID =
     (case store r taskID of
        None \<Rightarrow> (Inl (NotFound taskID), m)
      | Some a \<Rightarrow>
          (case copyTask m (Some a) of
             (m1, Some q) \<Rightarrow> (Inr q, m1)
           | (m1, None) \<Rightarrow> (Inl (InvalidData taskID), m1)))"

definition Update ::
  "InMemoryTaskRepository \<Rightarrow> memory \<Rightarrow> addr option
     \<Rightarrow> error option \<times> InMemoryTaskRepository \<times> memory" where
  "Update r m task =
     (case task of
        None \<Rightarrow> (Some TaskNil, r, m)
      | Some p \<Rightarrow>
          (if store r (ID (cells m p)) = None
           then (Some (NotFound (ID (cells m p))), r, m)
           else
             (let (m1, taskCopy) = copyTask m (Some p)
              in (None, r\<lparr>store := (store r)(ID (cells m p) := taskCopy)\<rparr>, m1))))"

definition Delete ::
  "InMemoryTaskRepository \<Rightarrow> uuid \<Rightarrow> error option \<times> InMemoryTaskRepository" where
  "Delete r taskID =
     (if store r taskID = None then (Some (NotFound taskID), r)
      else (None, r\<lparr>store := (store r)(taskID := None)\<rparr>))"

text \<open>
  \<open>GetAll\<close> ranges over the map in an order Go leaves open; \<open>ks\<close> is the order in which
  \<open>Range\<close> visits the keys.
\<close>

fun GetAll_range ::
  "InMemoryTaskRepository \<Rightarrow> memory \<Rightarrow> uuid list \<Rightarrow> addr list \<Rightarrow> addr list \<times> memory" where
  "GetAll_range r m [] tasks = (tasks, m)"
| "GetAll_range r m (k # ks) tasks =
     (case store r k of
        None \<Rightarrow> GetAll_range r m ks tasks
      | Some a \<Rightarrow>
          (case copyTask m (Some a) of
             (m1, Some q) \<Rightarrow> GetAll_range r m1 ks (tasks @ [q])
           | (m1, None) \<Rightarrow> GetAll_range r m1 ks tasks))"

definition GetAll ::
  "InMemoryTaskRepository \<Rightarrow> memory \<Rightarrow> uuid list \<Rightarrow> (error + addr list) \<times> memory" where
  "GetAll r m ks = (case GetAll_range r m ks [] of (tasks, m1) \<Rightarrow> (Inr tasks, m1))"

text \<open>The record the repository holds under an identifier.\<close>

definition stored :: "InMemoryTaskRepository \<Rightarrow> memory \<Rightarrow> uuid \<Rightarrow> Task option" where
  "stored r m taskID = map_option (cells m) (store r taskID)"

section \<open>The repository as the service sees it\<close>

text \<open>
  The service reaches the store through the \<open>Repository\<close> interface and only ever
  exchanges copies with it, so towards the service the store is a map from identifiers
  to task values. These are the five operations on that map; the lemmas
  \<open>Create_refines\<close> to \<open>GetAll_refines\<close> below relate them to the pointer
  operations above. \<open>Create\<close> also returns the caller's record, which it stamps.
\<close>

type_synonym task_store = "uuid \<Rightarrow> Task option"

definition Repository_Create ::
  "task_store \<Rightarrow> int \<Rightarrow> Task \<Rightarrow> error option \<times> task_store \<times> Task" where
  "Repository_Create st now task =
     (if st (ID task) \<noteq> None then (Some (AlreadyExists (ID task)), st, task)
      else (let task1 = task\<lparr>CreatedAt := now\<rparr>
            in (None, st(ID task1 \<mapsto> task1), task1)))"

definition Repository_GetByID :: "task_store \<Rightarrow> uuid \<Rightarrow> error + Task" where
  "Repository_GetByID st taskID =
     (case st taskID of None \<Rightarrow> Inl (NotFound taskID) | Some t \<Rightarrow> Inr t)"

definition Repository_Update :: "task_store \<Rightarrow> Task \<Rightarrow> error option \<times> task_store" where
  "Repository_Update st task =
     (if st (ID task) = None then (Some (NotFound (ID task)), st)
      else (None, st(ID task \<mapsto> task)))"

definition Repository_Delete :: "task_store \<Rightarrow> uuid \<Rightarrow> error option \<times> task_store" where
  "Repository_Delete st taskID =
     (if st taskID = None then (Some (NotFound taskID), st)
      else (None, st(taskID := None)))"

definition Repository_GetAll :: "task_store \<Rightarrow> uuid list \<Rightarrow> error + Task list" where
  "Repository_GetAll st ks = Inr (List.map_filter st ks)"

section \<open>The task service (internal/service/taskservice)\<close>

definition defaultTimeToProcessTask :: int where
  "defaultTimeToProcessTask = 6 * Minute"

text \<open>
  A \<open>TaskContext\<close>. \<open>Cancel\<close> is the \<open>CancelFunc\<close> of the context that
  \<open>context.WithTimeout(context.Background(), defaultTimeToProcessTask)\<close> made for the task:
  \<open>Cancelled\<close> and \<open>Deadline\<close> are the state of that context. \<open>Done\<close> is the channel,
  \<open>True\<close> once it is closed. The mutex makes every method below one atomic step.
\<close>

record TaskContext =
  tcID :: uuid
  Cancelled :: bool
  Deadline :: int
  Started :: int
  Done :: bool
  tcStatus :: TaskStatus

definition Cancel :: "TaskContext \<Rightarrow> TaskContext" where
  "Cancel tc = tc\<lparr>Cancelled := True\<rparr>"

definition ctx_Done :: "TaskContext \<Rightarrow> int \<Rightarrow> bool" where
  "ctx_Done tc now = (Cancelled tc \<or> Deadline tc \<le> now)"

definition IsFinished :: "TaskContext \<Rightarrow> bool" where
  "IsFinished tc = (if Done tc then True else False)"

text \<open>\<open>markFinished_closes\<close>: the call takes the \<open>default\<close> branch and runs \<open>close(tc.Done)\<close>.\<close>

definition markFinished_closes :: "TaskContext \<Rightarrow> bool" where
  "markFinished_closes tc = (\<not> Done tc)"

definition markFinished :: "TaskStatus \<Rightarrow> TaskContext \<Rightarrow> TaskContext" where
  "markFinished status tc =
     (let tc1 = tc\<lparr>tcStatus := status\<rparr>
      in if Done tc1 then tc1 else tc1\<lparr>Done := True\<rparr>)"

text \<open>
  A sequence of \<open>markFinished\<close> calls on one context: the number of times the channel
  was closed, and the context afterwards.
\<close>

fun markFinished_calls :: "TaskStatus list \<Rightarrow> TaskContext \<Rightarrow> nat \<times> TaskContext" where
  "markFinished_calls [] tc = (0, tc)"
| "markFinished_calls (status # rest) tc =
     (case markFinished_calls rest (markFinished status tc) of
        (n, tc1) \<Rightarrow> ((if markFinished_closes tc then Suc n else n), tc1))"

text \<open>
  The service: the store behind the \<open>Repository\<close> interface, the registry \<open>contexts\<close>
  (a \<open>sync.Map\<close> from identifiers to \<open>*TaskContext\<close>), the \<open>TaskContext\<close> objects
  those pointers denote, and the counter of the \<open>WaitGroup\<close>.
\<close>

record Service =
  repo :: task_store
  contexts :: "uuid \<Rightarrow> addr option"
  tctx :: "addr \<Rightarrow> TaskContext"
  nextCtx :: addr
  wg :: int

definition NewService :: "task_store \<Rightarrow> Service" where
  "NewService st =
     \<lparr>repo = st, contexts = (\<lambda>_. None),
      tctx = (\<lambda>_. \<lparr>tcID = 0, Cancelled = False, Deadline = 0, Started = 0, Done = False,
                      tcStatus = StatusUnset\<rparr>),
      nextCtx = 0, wg = 0\<rparr>"

definition Since :: "int \<Rightarrow> int \<Rightarrow> int" where
  "Since now t = now - t"

definition loadTaskContext :: "'a Service_scheme \<Rightarrow> uuid \<Rightarrow> addr option \<times> bool" where
  "loadTaskContext s taskID =
     (case contexts s taskID of Some a \<Rightarrow> (Some a, True) | None \<Rightarrow> (None, False))"

definition updateTaskProcessingTime :: "'a Service_scheme \<Rightarrow> int \<Rightarrow> Task \<Rightarrow> Task" where
  "updateTaskProcessingTime s now task =
     (if \<not> IsProcessing task then task
      else (case loadTaskContext s (ID task) of
              (Some a, True) \<Rightarrow>
                 if \<not> IsFinished (tctx s a)
                 then task\<lparr>ProcessingTime := Since now (Started (tctx s a))\<rparr>
                 else task
            | _ \<Rightarrow> task))"

text \<open>
  \<open>CreateTask\<close>: \<open>newID\<close> is what \<open>uuid.New()\<close> returns and \<open>now\<close> the clock. The
  second component says whether \<open>go s.executeTask(taskCtx, *task, taskContext)\<close> ran, and
  with which task value and which \<open>TaskContext\<close>.
\<close>

definition CreateTask ::
  "'a Service_scheme \<Rightarrow> int \<Rightarrow> uuid \<Rightarrow> string
     \<Rightarrow> (error + Task) \<times> (Task \<times> addr) option \<times> 'a Service_scheme" where
  "CreateTask s now newID name =
     (let task = (SetStatus StatusProcessing (NewTask newID [WithName name]))\<lparr>CreatedAt := now\<rparr>
      in case Repository_Create (repo s) now task of
           (Some err, _, _) \<Rightarrow> (Inl (Wrap ''failed to create task'' err), None, s)
         | (None, st, task1) \<Rightarrow>
             (let a = nextCtx s;
                  taskContext = \<lparr>tcID = ID task1, Cancelled = False,
                                 Deadline = now + defaultTimeToProcessTask,
                                 Started = now, Done = False, tcStatus = StatusProcessing\<rparr>
              in (Inr task1, Some (task1, a),
                  s\<lparr>repo := st, contexts := (contexts s)(ID task1 \<mapsto> a),
                    tctx := (tctx s)(a := taskContext), nextCtx := Suc a,
                    wg := wg s + 1\<rparr>)))"

definition GetTask :: "'a Service_scheme \<Rightarrow> int \<Rightarrow> uuid \<Rightarrow> error + Task" where
  "GetTask s now taskID =
     (case Repository_GetByID (repo s) taskID of
        Inl err \<Rightarrow> Inl (Wrap ''task not found'' err)
      | Inr task \<Rightarrow> Inr (updateTaskProcessingTime s now task))"

definition ListTasks :: "'a Service_scheme \<Rightarrow> int \<Rightarrow> uuid list \<Rightarrow> error + Task list" where
  "ListTasks s now ks =
     (case Repository_GetAll (repo s) ks of
        Inl err \<Rightarrow> Inl (Wrap ''failed to get tasks'' err)
      | Inr tasks \<Rightarrow> Inr (map (updateTaskProcessingTime s now) tasks))"

definition GetTaskStatus :: "'a Service_scheme \<Rightarrow> uuid \<Rightarrow> TaskStatus \<times> bool" where
  "GetTaskStatus s taskID =
     (case loadTaskContext s taskID of
        (Some a, True) \<Rightarrow> (tcStatus (tctx s a), True)
      | _ \<Rightarrow> (StatusUnset, False))"

text \<open>
  \<open>DeleteTask\<close> makes three calls one after the other, and other goroutines run between
  them. \<open>DeleteTask_cancel\<close> is the middle block, \<open>DeleteTask_delete\<close> the last one, and
  \<open>DeleteTask_with between\<close> the whole method when the other goroutines turn the service
  state \<open>s1\<close> reached after the middle block into \<open>between s1\<close> before the last call.
\<close>

definition DeleteTask_cancel :: "'a Service_scheme \<Rightarrow> uuid \<Rightarrow> 'a Service_scheme" where
  "DeleteTask_cancel s taskID =
     (case loadTaskContext s taskID of
        (Some a, True) \<Rightarrow>
           s\<lparr>tctx := (tctx s)(a := Cancel (tctx s a)),
             contexts := (contexts s)(taskID := None)\<rparr>
      | _ \<Rightarrow> s)"

definition DeleteTask_delete ::
  "'a Service_scheme \<Rightarrow> uuid \<Rightarrow> error option \<times> 'a Service_scheme" where
  "DeleteTask_delete s taskID =
     (case Repository_Delete (repo s) taskID of
        (Some err, _) \<Rightarrow> (Some (Wrap ''failed to delete task'' err), s)
      | (None, st) \<Rightarrow> (None, s\<lparr>repo := st\<rparr>))"

definition DeleteTask_with ::
  "('a Service_scheme \<Rightarrow> 'a Service_scheme) \<Rightarrow> 'a Service_scheme \<Rightarrow> uuid
     \<Rightarrow> error option \<times> 'a Service_scheme" where
  "DeleteTask_with between s taskID =
     (case Repository_GetByID (repo s) taskID of
        Inl err \<Rightarrow> (Some (Wrap ''task not found'' err), s)
      | Inr _ \<Rightarrow> DeleteTask_delete (between (DeleteTask_cancel s taskID)) taskID)"

definition DeleteTask :: "'a Service_scheme \<Rightarrow> uuid \<Rightarrow> error option \<times> 'a Service_scheme" where
  "DeleteTask s taskID = DeleteTask_with (\<lambda>s1. s1) s taskID"

subsection \<open>The executor\<close>

definition finalizeTask ::
  "'a Service_scheme \<Rightarrow> Task \<Rightarrow> TaskStatus \<Rightarrow> int \<Rightarrow> 'a Service_scheme \<times> Task" where
  "finalizeTask s task status processingTime =
     (let task1 = task\<lparr>Status := status, ProcessingTime := processingTime\<rparr>
      in case Repository_Update (repo s) task1 of
           (Some err, _) \<Rightarrow> (s, task1)
         | (None, st) \<Rightarrow> (s\<lparr>repo := st\<rparr>, task1))"

text \<open>\<open>rand.Intn(3)\<close> returns \<open>r\<close> with \<open>0 \<le> r < 3\<close>.\<close>

definition workDuration :: "int \<Rightarrow> int" where
  "workDuration r = (3 + r) * Minute"

definition tickerInterval :: int where
  "tickerInterval = 1 * Second"

definition mark :: "'a Service_scheme \<Rightarrow> addr \<Rightarrow> TaskStatus \<Rightarrow> 'a Service_scheme" where
  "mark s a status = s\<lparr>tctx := (tctx s)(a := markFinished status (tctx s a))\<rparr>"

datatype outcome = Continue | Return

text \<open>The body of \<open>case <-ticker.C\<close>, run at clock \<open>now\<close>.\<close>

definition executeTask_tick ::
  "'a Service_scheme \<Rightarrow> addr \<Rightarrow> Task \<Rightarrow> int \<Rightarrow> int \<Rightarrow> int
     \<Rightarrow> 'a Service_scheme \<times> Task \<times> outcome" where
  "executeTask_tick s a task wd start now =
     (let elapsed = Since now start;
          task1 = task\<lparr>ProcessingTime := elapsed\<rparr>
      in if elapsed \<ge> wd then
           (case finalizeTask s task1 StatusDone elapsed of
              (s1, task2) \<Rightarrow> (mark s1 a StatusDone, task2, Return))
         else
           (case Repository_Update (repo s) task1 of
              (Some err, _) \<Rightarrow>
                 (case finalizeTask s task1 StatusFailed elapsed of
                    (s1, task2) \<Rightarrow> (mark s1 a StatusFailed, task2, Return))
            | (None, st) \<Rightarrow> (s\<lparr>repo := st\<rparr>, task1, Continue)))"

text \<open>The body of \<open>case <-ctx.Done()\<close>.\<close>

definition executeTask_cancelled ::
  "'a Service_scheme \<Rightarrow> addr \<Rightarrow> Task \<Rightarrow> int \<Rightarrow> int \<Rightarrow> 'a Service_scheme \<times> Task" where
  "executeTask_cancelled s a task start now =
     (case finalizeTask s task StatusFailed (Since now start) of
        (s1, task1) \<Rightarrow> (mark s1 a StatusFailed, task1))"

text \<open>The deferred function.\<close>

definition executeTask_deferred :: "'a Service_scheme \<Rightarrow> addr \<Rightarrow> Task \<Rightarrow> 'a Service_scheme" where
  "executeTask_deferred s a task =
     (let s1 = s\<lparr>wg := wg s - 1\<rparr>;
          s2 = (if \<not> IsFinished (tctx s1 a) then mark s1 a StatusFailed else s1)
      in s2\<lparr>contexts := (contexts s2)(ID task := None)\<rparr>)"

subsection \<open>Shutdown\<close>

fun Shutdown_range :: "'a Service_scheme \<Rightarrow> uuid list \<Rightarrow> 'a Service_scheme" where
  "Shutdown_range s [] = s"
| "Shutdown_range s (k # ks) =
     (case contexts s k of
        None \<Rightarrow> Shutdown_range s ks
      | Some a \<Rightarrow>
          if \<not> IsFinished (tctx s a)
          then Shutdown_range (s\<lparr>tctx := (tctx s)(a := Cancel (tctx s a))\<rparr>) ks
          else Shutdown_range s ks)"

definition shutdownTimeout :: int where
  "shutdownTimeout = 30 * Second"

text \<open>
  The end of \<open>Shutdown\<close>: \<open>context.WithTimeout(ctx, shutdownTimeout)\<close> and the \<open>select\<close>,
  both at clock \<open>now\<close>. \<open>ctxDone\<close> is the instant at which the caller's \<open>ctx\<close> is done (its
  deadline or its cancellation; \<open>None\<close> when it never is), \<open>drained\<close> the instant at which
  \<open>s.wg.Wait()\<close> returns and \<open>done\<close> is closed (\<open>None\<close> when some executor never finishes);
  either may lie before \<open>now\<close>. \<open>shutdownCtx\<close> is done at the earlier of \<open>ctxDone\<close> and
  \<open>now + shutdownTimeout\<close>. A \<open>select\<close> with several cases ready when it is entered takes
  any one of them, and \<open>pick\<close> is that choice; with one case ready it takes that one;
  with none ready it blocks and takes the case that becomes ready first (\<open>pick\<close> again
  when both do at the same instant).
\<close>

definition shutdownCtx_done :: "int \<Rightarrow> int option \<Rightarrow> int" where
  "shutdownCtx_done now ctxDone =
     (case ctxDone of None \<Rightarrow> now + shutdownTimeout
                    | Some c \<Rightarrow> min c (now + shutdownTimeout))"

definition Shutdown_select :: "int \<Rightarrow> int option \<Rightarrow> int option \<Rightarrow> bool \<Rightarrow> error option" where
  "Shutdown_select now ctxDone drained pick =
     (let ctxReady = (shutdownCtx_done now ctxDone \<le> now);
          doneReady = (case drained of None \<Rightarrow> False | Some d \<Rightarrow> d \<le> now)
      in if ctxReady \<and> doneReady then (if pick then Some ShutdownTimeout else None)
         else if ctxReady then Some ShutdownTimeout
         else if doneReady then None
         else (case drained of
                 None \<Rightarrow> Some ShutdownTimeout
               | Some d \<Rightarrow>
                   if shutdownCtx_done now ctxDone < d then Some ShutdownTimeout
                   else if d < shutdownCtx_done now ctxDone then None
                   else if pick then Some ShutdownTimeout else None))"

text \<open>
  \<open>ks\<close> is the sequence of keys that \<open>s.contexts.Range\<close> visits; with no concurrent writer
  it visits every key of the map once.
\<close>

definition Shutdown ::
  "'a Service_scheme \<Rightarrow> uuid list \<Rightarrow> int \<Rightarrow> int option \<Rightarrow> int option \<Rightarrow> bool
     \<Rightarrow> error option \<times> 'a Service_scheme" where
  "Shutdown s ks now ctxDone drained pick =
     (Shutdown_select now ctxDone drained pick, Shutdown_range s ks)"

text \<open>
  Every address the repository holds has been allocated; and a pointer of a caller is an
  allocated address that the repository does not hold. Every pointer the repository
  hands out is one (\<open>GetByID_refines\<close>, \<open>GetAll_refines\<close>), and the operations keep it so.
\<close>

definition heap_ok :: "InMemoryTaskRepository \<Rightarrow> memory \<Rightarrow> bool" where
  "heap_ok r m = (\<forall>k a. store r k = Some a \<longrightarrow> a < next_free m)"

definition caller_owned :: "InMemoryTaskRepository \<Rightarrow> memory \<Rightarrow> addr \<Rightarrow> bool" where
  "caller_owned r m p = (p < next_free m \<and> (\<forall>k. store r k \<noteq> Some p))"

section \<open>Example states\<close>

definition task_a :: Task where
  "task_a = \<lparr>ID = 7, Name = ''alpha'', Status = StatusProcessing, CreatedAt = 1,
             ProcessingTime = 0\<rparr>"

definition task_b :: Task where
  "task_b = \<lparr>ID = 9, Name = ''beta'', Status = StatusProcessing, CreatedAt = 0,
             ProcessingTime = 0\<rparr>"

definition memory0 :: memory where
  "memory0 = \<lparr>cells = (\<lambda>_. task_a)(1 := task_b), next_free = 2\<rparr>"

definition repository0 :: InMemoryTaskRepository where
  "repository0 = \<lparr>store = (\<lambda>_. None)(7 := Some 0)\<rparr>"

definition context0 :: TaskContext where
  "context0 = \<lparr>tcID = 7, Cancelled = False, Deadline = 6 * Minute, Started = 0, Done = False,
               tcStatus = StatusProcessing\<rparr>"

definition service0 :: Service where
  "service0 = (NewService ((\<lambda>_. None)(7 := Some task_a)))
                \<lparr>contexts := (\<lambda>_. None)(7 := Some 0), tctx := (\<lambda>_. context0),
                  nextCtx := 1, wg := 1\<rparr>"

section \<open>The goroutines of the service, interleaved\<close>

text \<open>
  The sequential functions above run one call with nothing in between. The goroutines of
  the service interleave: the only atomic steps are a call of a \<open>sync.Map\<close> method, a
  method of \<open>TaskContext\<close> (under its mutex), a \<open>CancelFunc\<close> and \<open>wg.Add\<close>/\<open>wg.Done\<close>. The
  repository methods are not atomic: \<open>Create\<close>, \<open>Update\<close> and \<open>Delete\<close> are a \<open>store.Load\<close>
  followed by a \<open>store.Store\<close> or \<open>store.Delete\<close>.

  One process per created task runs \<open>CreateTask\<close> and then, after the \<open>go\<close> statement,
  \<open>executeTask\<close>. Its program counter names the atomic step it performs next:
  \<^item> \<open>CreateLoad\<close>: the \<open>r.store.Load\<close> of \<open>repo.Create\<close>; \<open>CreateFailed\<close> when the
    identifier is there and \<open>CreateTask\<close> returns the error;
  \<^item> \<open>CreateStore\<close>: \<open>task.CreatedAt = time.Now()\<close>, the copy and \<open>r.store.Store\<close>;
  \<^item> \<open>Register\<close>: \<open>context.WithTimeout\<close>, \<open>&TaskContext{...}\<close> and \<open>s.contexts.Store\<close>;
  \<^item> \<open>WgAdd\<close>: \<open>s.wg.Add(1)\<close>; \<open>Spawn\<close>: the \<open>go\<close> statement, which copies \<open>*task\<close>;
  \<^item> \<open>Start\<close>: the draw of \<open>workDuration\<close>, \<open>time.NewTicker\<close> and \<open>start := time.Now()\<close>;
  \<^item> \<open>Select\<close>: blocked in the \<open>select\<close>;
  \<^item> \<open>UpdateLoad\<close>, \<open>UpdateStore\<close>: the \<open>Load\<close> and the \<open>Store\<close> of \<open>s.repo.Update(&task)\<close>
    in the loop;
  \<^item> \<open>FinalizeLoad st\<close>, \<open>FinalizeStore st\<close>: the \<open>Load\<close> and the \<open>Store\<close> of the
    \<open>s.repo.Update(task)\<close> in \<open>finalizeTask(&task, st, ...)\<close>, whose two assignments to the
    local task are done by the step before;
  \<^item> \<open>MarkFinished st\<close>: \<open>taskContext.markFinished(st)\<close>;
  \<^item> \<open>DeferWgDone\<close>, \<open>DeferIsFinished\<close>, \<open>DeferMarkFinished\<close>, \<open>DeferDelete\<close>: the deferred
    function: \<open>s.wg.Done()\<close>, \<open>taskContext.IsFinished()\<close>,
    \<open>taskContext.markFinished(StatusFailed)\<close>, \<open>s.contexts.Delete(task.ID)\<close>;
  \<^item> \<open>Exited\<close>: the goroutine has returned.
\<close>

datatype pc =
    CreateLoad | CreateStore | CreateFailed | Register | WgAdd | Spawn
  | Start | Select | UpdateLoad | UpdateStore
  | FinalizeLoad TaskStatus | FinalizeStore TaskStatus | MarkFinished TaskStatus
  | DeferWgDone | DeferIsFinished | DeferMarkFinished | DeferDelete | Exited

text \<open>
  The local variables of a process: its program counter, its task (the \<open>*task\<close> of
  \<open>CreateTask\<close>, then the copy that \<open>executeTask\<close> owns), the \<open>taskContext\<close> pointer,
  \<open>workDuration\<close>, \<open>start\<close>, \<open>elapsed\<close>, and the instant of the next tick of its ticker.
\<close>

record proc =
  p_pc :: pc
  p_task :: Task
  p_ctx :: addr
  p_wd :: int
  p_start :: int
  p_elapsed :: int
  p_tick :: int

text \<open>
  A call of \<open>DeleteTask\<close> in flight, by the atomic step it performs next: \<open>repo.GetByID\<close>,
  the \<open>contexts.Load\<close> of \<open>loadTaskContext\<close>, \<open>taskContext.Cancel()\<close>, \<open>s.contexts.Delete\<close>,
  the \<open>store.Load\<close> and the \<open>store.Delete\<close> of \<open>repo.Delete\<close>; \<open>DelReturned e\<close> once it
  has returned \<open>e\<close>.
\<close>

datatype dpc =
    DelGetByID | DelLoadContext | DelCancel addr | DelContextsDelete
  | DelRepoLoad | DelRepoDelete | DelReturned "error option"

text \<open>
  The whole system: the service, the clock, the task processes by identifier and the
  \<open>DeleteTask\<close> calls by a number that names the call.
\<close>

record System = Service +
  clock :: int
  procs :: "uuid \<Rightarrow> proc option"
  deleters :: "nat \<Rightarrow> (uuid \<times> dpc) option"

definition NewSystem :: System where
  "NewSystem = Service.extend (NewService (\<lambda>_. None))
                 \<lparr>clock = 0, procs = (\<lambda>_. None), deleters = (\<lambda>_. None)\<rparr>"

text \<open>
  What can happen next. \<open>Advance d\<close>: time passes. \<open>CallCreateTask newID name\<close>:
  \<open>CreateTask\<close> is called and \<open>uuid.New()\<close> returns \<open>newID\<close>, an identifier it has not returned
  before. \<open>Step i\<close>: the process of task \<open>i\<close> performs its next step. \<open>Draw i r\<close>: it starts
  \<open>executeTask\<close> and \<open>rand.Intn(3)\<close> returns \<open>r\<close>. \<open>Tick i\<close> and \<open>CtxDone i\<close>: its \<open>select\<close>
  takes \<open>case <-ticker.C\<close> or \<open>case <-ctx.Done()\<close>. \<open>CallDeleteTask n taskID\<close> and
  \<open>DeleteStep n\<close>: a call of \<open>DeleteTask\<close> and its steps. \<open>ShutdownCancel a\<close>: \<open>Shutdown\<close>
  calls \<open>Cancel\<close> of a context it found in the registry; the context may have finished or
  left the registry since \<open>Shutdown\<close> looked, so the step is there for every context made.
  Reads (\<open>GetTask\<close>, \<open>ListTasks\<close>, \<open>GetTaskStatus\<close>) change nothing; what they return in a
  state is what the functions above return on it.
\<close>

datatype action =
    Advance int
  | CallCreateTask uuid string
  | Step uuid
  | Draw uuid int
  | Tick uuid
  | CtxDone uuid
  | CallDeleteTask nat uuid
  | DeleteStep nat
  | ShutdownCancel addr

definition set_proc :: "uuid \<Rightarrow> proc \<Rightarrow> System \<Rightarrow> System" where
  "set_proc i p s = s\<lparr>procs := (procs s)(i \<mapsto> p)\<rparr>"

fun proc_step :: "uuid \<Rightarrow> proc \<Rightarrow> pc \<Rightarrow> System \<Rightarrow> System option" where
  "proc_step i p CreateLoad s =
     Some (set_proc i
       (p\<lparr>p_pc := (if repo s (ID (p_task p)) \<noteq> None then CreateFailed else CreateStore)\<rparr>) s)"
| "proc_step i p CreateStore s =
     (let t = (p_task p)\<lparr>CreatedAt := clock s\<rparr>
      in Some (set_proc i (p\<lparr>p_task := t, p_pc := Register\<rparr>)
                 (s\<lparr>repo := (repo s)(ID t \<mapsto> t)\<rparr>)))"
| "proc_step i p Register s =
     (let a = nextCtx s;
          taskContext = \<lparr>tcID = ID (p_task p), Cancelled = False,
                         Deadline = clock s + defaultTimeToProcessTask,
                         Started = clock s, Done = False, tcStatus = StatusProcessing\<rparr>
      in Some (set_proc i (p\<lparr>p_ctx := a, p_pc := WgAdd\<rparr>)
                 (s\<lparr>contexts := (contexts s)(ID (p_task p) \<mapsto> a),
                    tctx := (tctx s)(a := taskContext), nextCtx := Suc a\<rparr>)))"
| "proc_step i p WgAdd s = Some (set_proc i (p\<lparr>p_pc := Spawn\<rparr>) (s\<lparr>wg := wg s + 1\<rparr>))"
| "proc_step i p Spawn s = Some (set_proc i (p\<lparr>p_pc := Start\<rparr>) s)"
| "proc_step i p UpdateLoad s =
     Some (set_proc i
       (if repo s (ID (p_task p)) = None
        then p\<lparr>p_task := (p_task p)\<lparr>Status := StatusFailed, ProcessingTime := p_elapsed p\<rparr>,
               p_pc := FinalizeLoad StatusFailed\<rparr>
        else p\<lparr>p_pc := UpdateStore\<rparr>) s)"
| "proc_step i p UpdateStore s =
     Some (set_proc i (p\<lparr>p_pc := Select\<rparr>)
             (s\<lparr>repo := (repo s)(ID (p_task p) \<mapsto> p_task p)\<rparr>))"
| "proc_step i p (FinalizeLoad st) s =
     Some (set_proc i
       (p\<lparr>p_pc := (if repo s (ID (p_task p)) = None then MarkFinished st
                     else FinalizeStore st)\<rparr>) s)"
| "proc_step i p (FinalizeStore st) s =
     Some (set_proc i (p\<lparr>p_pc := MarkFinished st\<rparr>)
             (s\<lparr>repo := (repo s)(ID (p_task p) \<mapsto> p_task p)\<rparr>))"
| "proc_step i p (MarkFinished st) s =
     Some (set_proc i (p\<lparr>p_pc := DeferWgDone\<rparr>) (mark s (p_ctx p) st))"
| "proc_step i p DeferWgDone s =
     Some (set_proc i (p\<lparr>p_pc := DeferIsFinished\<rparr>) (s\<lparr>wg := wg s - 1\<rparr>))"
| "proc_step i p DeferIsFinished s =
     Some (set_proc i
       (p\<lparr>p_pc := (if \<not> IsFinished (tctx s (p_ctx p)) then DeferMarkFinished
                     else DeferDelete)\<rparr>) s)"
| "proc_step i p DeferMarkFinished s =
     Some (set_proc i (p\<lparr>p_pc := DeferDelete\<rparr>) (mark s (p_ctx p) StatusFailed))"
| "proc_step i p DeferDelete s =
     Some (set_proc i (p\<lparr>p_pc := Exited\<rparr>)
             (s\<lparr>contexts := (contexts s)(ID (p_task p) := None)\<rparr>))"
| "proc_step i p Start s = None"
| "proc_step i p Select s = None"
| "proc_step i p CreateFailed s = None"
| "proc_step i p Exited s = None"

text \<open>
  The ticker delivers its \<open>k\<close>-th tick no earlier than \<open>k\<close> periods after it was made, so
  \<open>case <-ticker.C\<close> can be taken once the clock has reached \<open>p_tick\<close>, which then moves on by
  a period. \<open>case <-ctx.Done()\<close> can be taken once the task's context is cancelled or past
  its deadline. When both can be taken, either may be.
\<close>

definition draw_step :: "uuid \<Rightarrow> proc \<Rightarrow> int \<Rightarrow> System \<Rightarrow> System option" where
  "draw_step i p r s =
     (if p_pc p = Start \<and> 0 \<le> r \<and> r < 3
      then Some (set_proc i
             (p\<lparr>p_wd := workDuration r, p_tick := clock s + tickerInterval,
                p_start := clock s, p_pc := Select\<rparr>) s)
      else None)"

definition tick_step :: "uuid \<Rightarrow> proc \<Rightarrow> System \<Rightarrow> System option" where
  "tick_step i p s =
     (if p_pc p = Select \<and> p_tick p \<le> clock s
      then (let elapsed = Since (clock s) (p_start p);
                p1 = p\<lparr>p_tick := p_tick p + tickerInterval, p_elapsed := elapsed,
                        p_task := (p_task p)\<lparr>ProcessingTime := elapsed\<rparr>\<rparr>
            in Some (set_proc i
                 (if elapsed \<ge> p_wd p
                  then p1\<lparr>p_task := (p_task p1)\<lparr>Status := StatusDone,
                                                  ProcessingTime := elapsed\<rparr>,
                          p_pc := FinalizeLoad StatusDone\<rparr>
                  else p1\<lparr>p_pc := UpdateLoad\<rparr>) s))
      else None)"

definition ctxdone_step :: "uuid \<Rightarrow> proc \<Rightarrow> System \<Rightarrow> System option" where
  "ctxdone_step i p s =
     (if p_pc p = Select \<and> ctx_Done (tctx s (p_ctx p)) (clock s)
      then Some (set_proc i
             (p\<lparr>p_task := (p_task p)\<lparr>Status := StatusFailed,
                                       ProcessingTime := Since (clock s) (p_start p)\<rparr>,
                p_pc := FinalizeLoad StatusFailed\<rparr>) s)
      else None)"

definition set_del :: "nat \<Rightarrow> uuid \<Rightarrow> dpc \<Rightarrow> System \<Rightarrow> System" where
  "set_del n taskID d s = s\<lparr>deleters := (deleters s)(n \<mapsto> (taskID, d))\<rparr>"

fun delete_step :: "nat \<Rightarrow> uuid \<Rightarrow> dpc \<Rightarrow> System \<Rightarrow> System option" where
  "delete_step n taskID DelGetByID s =
     Some (case Repository_GetByID (repo s) taskID of
             Inl err \<Rightarrow> set_del n taskID (DelReturned (Some (Wrap ''task not found'' err))) s
           | Inr _ \<Rightarrow> set_del n taskID DelLoadContext s)"
| "delete_step n taskID DelLoadContext s =
     Some (case loadTaskContext s taskID of
             (Some a, True) \<Rightarrow> set_del n taskID (DelCancel a) s
           | _ \<Rightarrow> set_del n taskID DelRepoLoad s)"
| "delete_step n taskID (DelCancel a) s =
     Some (set_del n taskID DelContextsDelete (s\<lparr>tctx := (tctx s)(a := Cancel (tctx s a))\<rparr>))"
| "delete_step n taskID DelContextsDelete s =
     Some (set_del n taskID DelRepoLoad (s\<lparr>contexts := (contexts s)(taskID := None)\<rparr>))"
| "delete_step n taskID DelRepoLoad s =
     Some (if repo s taskID = None
           then set_del n taskID
                  (DelReturned (Some (Wrap ''failed to delete task'' (NotFound taskID)))) s
           else set_del n taskID DelRepoDelete s)"
| "delete_step n taskID DelRepoDelete s =
     Some (set_del n taskID (DelReturned None) (s\<lparr>repo := (repo s)(taskID := None)\<rparr>))"
| "delete_step n taskID (DelReturned e) s = None"

fun step :: "action \<Rightarrow> System \<Rightarrow> System option" where
  "step (Advance d) s = (if 0 \<le> d then Some (s\<lparr>clock := clock s + d\<rparr>) else None)"
| "step (CallCreateTask newID name) s =
     (if procs s newID = None
      then Some (set_proc newID
             \<lparr>p_pc = CreateLoad,
              p_task = (SetStatus StatusProcessing (NewTask newID [WithName name]))
                         \<lparr>CreatedAt := clock s\<rparr>,
              p_ctx = 0, p_wd = 0, p_start = 0, p_elapsed = 0, p_tick = 0\<rparr> s)
      else None)"
| "step (Step i) s = (case procs s i of None \<Rightarrow> None | Some p \<Rightarrow> proc_step i p (p_pc p) s)"
| "step (Draw i r) s = (case procs s i of None \<Rightarrow> None | Some p \<Rightarrow> draw_step i p r s)"
| "step (Tick i) s = (case procs s i of None \<Rightarrow> None | Some p \<Rightarrow> tick_step i p s)"
| "step (CtxDone i) s = (case procs s i of None \<Rightarrow> None | Some p \<Rightarrow> ctxdone_step i p s)"
| "step (CallDeleteTask n taskID) s =
     (if deleters s n = None then Some (set_del n taskID DelGetByID s) else None)"
| "step (DeleteStep n) s =
     (case deleters s n of None \<Rightarrow> None | Some (taskID, d) \<Rightarrow> delete_step n taskID d s)"
| "step (ShutdownCancel a) s =
     (if a < nextCtx s then Some (s\<lparr>tctx := (tctx s)(a := Cancel (tctx s a))\<rparr>) else None)"

text \<open>
  A schedule is a list of actions; \<open>run\<close> performs it, and is \<open>None\<close> when one of its
  actions cannot happen in the state reached.
\<close>

fun run :: "action list \<Rightarrow> System \<Rightarrow> System option" where
  "run [] s = Some s"
| "run (a # as) s = (case step a s of None \<Rightarrow> None | Some s1 \<Rightarrow> run as s1)"

text \<open>
  Schedules used below. \<open>create_and_start\<close>: \<open>CreateTask\<close> runs to its end and the executor
  reaches its \<open>select\<close>. \<open>race_schedule\<close>: the executor's first tick comes after a second and
  its \<open>Update\<close> has done its \<open>Load\<close>; then a \<open>DeleteTask\<close> for the task runs from its first
  step to its return; then the \<open>Update\<close> does its \<open>Store\<close>. \<open>race_finish\<close>: the executor
  sees the cancellation and runs to its end. \<open>finalized_schedule\<close>: after a first tick
  and its \<open>Update\<close>, \<open>Shutdown\<close> cancels the task's context, the executor takes
  \<open>case <-ctx.Done()\<close> and \<open>finalizeTask\<close> has written the record as \<open>FAILED\<close>.
\<close>

definition create_and_start :: "uuid \<Rightarrow> string \<Rightarrow> int \<Rightarrow> action list" where
  "create_and_start i name r =
     [CallCreateTask i name, Step i, Step i, Step i, Step i, Step i, Draw i r]"

definition race_schedule :: "action list" where
  "race_schedule =
     create_and_start 7 ''alpha'' 0 @
     [Advance Second, Tick 7, Step 7,
      CallDeleteTask 0 7, DeleteStep 0, DeleteStep 0, DeleteStep 0, DeleteStep 0,
      DeleteStep 0, DeleteStep 0,
      Step 7]"

definition race_finish :: "action list" where
  "race_finish = [CtxDone 7, Step 7, Step 7, Step 7, Step 7, Step 7, Step 7]"

definition finalized_schedule :: "action list" where
  "finalized_schedule =
     create_and_start 7 ''alpha'' 0 @
     [Advance Second, Tick 7, Step 7, Step 7,
      ShutdownCancel 0, CtxDone 7, Step 7, Step 7]"

text \<open>
  The number of steps that a call takes when nothing runs in between, for the lemmas
  that relate the steps to the sequential functions.
\<close>

definition DeleteTask_steps :: "System \<Rightarrow> uuid \<Rightarrow> nat" where
  "DeleteTask_steps s taskID =
     (if repo s taskID = None then 1 else if contexts s taskID = None then 4 else 6)"

definition tick_steps :: "System \<Rightarrow> proc \<Rightarrow> nat" where
  "tick_steps s p =
     (if p_wd p \<le> Since (clock s) (p_start p)
      then (if repo s (ID (p_task p)) = None then 2 else 3)
      else (if repo s (ID (p_task p)) = None then 3 else 2))"

definition cancelled_steps :: "System \<Rightarrow> proc \<Rightarrow> nat" where
  "cancelled_steps s p = (if repo s (ID (p_task p)) = None then 2 else 3)"

definition deferred_steps :: "System \<Rightarrow> proc \<Rightarrow> nat" where
  "deferred_steps s p = (if IsFinished (tctx s (p_ctx p)) then 3 else 4)"

text \<open>
  \<open>DONE\<close> and \<open>FAILED\<close> are the terminal statuses.
\<close>

definition terminal :: "TaskStatus \<Rightarrow> bool" where
  "terminal st = (st = StatusDone \<or> st = StatusFailed)"

text \<open>
  What holds in every state the system reaches (\<open>consistent\<close>, \<open>keyed\<close>), and what a single
  step can change (\<open>effect\<close>). A process before its first \<open>Store\<close> has no record and one
  before \<open>Register\<close> no context; while it may still write, its record, if there, is
  \<open>PROCESSING\<close>, as is its local task until \<open>finalizeTask\<close> assigns the status it then writes;
  its context is \<open>PROCESSING\<close> and open until \<open>markFinished\<close>, terminal and closed after;
  the registry holds for its identifier its own context or none; no two processes share
  a context; and the deferred \<open>markFinished\<close> is never reached.
\<close>

fun before_store :: "pc \<Rightarrow> bool" where
  "before_store CreateLoad = True"
| "before_store CreateStore = True"
| "before_store _ = False"

fun before_register :: "pc \<Rightarrow> bool" where
  "before_register CreateLoad = True"
| "before_register CreateStore = True"
| "before_register Register = True"
| "before_register CreateFailed = True"
| "before_register _ = False"

fun may_store :: "pc \<Rightarrow> bool" where
  "may_store (MarkFinished st) = False"
| "may_store DeferWgDone = False"
| "may_store DeferIsFinished = False"
| "may_store DeferMarkFinished = False"
| "may_store DeferDelete = False"
| "may_store Exited = False"
| "may_store CreateFailed = False"
| "may_store _ = True"

fun unmarked :: "pc \<Rightarrow> bool" where
  "unmarked WgAdd = True"
| "unmarked Spawn = True"
| "unmarked Start = True"
| "unmarked Select = True"
| "unmarked UpdateLoad = True"
| "unmarked UpdateStore = True"
| "unmarked (FinalizeLoad st) = True"
| "unmarked (FinalizeStore st) = True"
| "unmarked (MarkFinished st) = True"
| "unmarked _ = False"

fun marked :: "pc \<Rightarrow> bool" where
  "marked DeferWgDone = True"
| "marked DeferIsFinished = True"
| "marked DeferDelete = True"
| "marked Exited = True"
| "marked _ = False"

fun status_ok :: "pc \<Rightarrow> Task \<Rightarrow> bool" where
  "status_ok (FinalizeLoad st) t = (terminal st \<and> Status t = st)"
| "status_ok (FinalizeStore st) t = (terminal st \<and> Status t = st)"
| "status_ok (MarkFinished st) t = terminal st"
| "status_ok CreateFailed t = False"
| "status_ok DeferMarkFinished t = False"
| "status_ok DeferWgDone t = True"
| "status_ok DeferIsFinished t = True"
| "status_ok DeferDelete t = True"
| "status_ok Exited t = True"
| "status_ok _ t = (Status t = StatusProcessing)"

definition proc_ok :: "System \<Rightarrow> uuid \<Rightarrow> proc \<Rightarrow> bool" where
  "proc_ok s i p =
     (ID (p_task p) = i
      \<and> status_ok (p_pc p) (p_task p)
      \<and> (before_store (p_pc p) \<longrightarrow> repo s i = None)
      \<and> (before_register (p_pc p) \<longrightarrow> contexts s i = None)
      \<and> (may_store (p_pc p) \<longrightarrow> (\<forall>t. repo s i = Some t \<longrightarrow> Status t = StatusProcessing))
      \<and> (\<not> before_register (p_pc p) \<longrightarrow>
            p_ctx p < nextCtx s \<and> (contexts s i = None \<or> contexts s i = Some (p_ctx p)))
      \<and> (unmarked (p_pc p) \<longrightarrow>
            tcStatus (tctx s (p_ctx p)) = StatusProcessing \<and> \<not> Done (tctx s (p_ctx p)))
      \<and> (marked (p_pc p) \<longrightarrow>
            terminal (tcStatus (tctx s (p_ctx p))) \<and> Done (tctx s (p_ctx p))))"

definition consistent :: "System \<Rightarrow> bool" where
  "consistent s =
     ((\<forall>i p. procs s i = Some p \<longrightarrow> proc_ok s i p)
      \<and> (\<forall>i. procs s i = None \<longrightarrow> repo s i = None \<and> contexts s i = None)
      \<and> (\<forall>i j p q. procs s i = Some p \<and> procs s j = Some q
             \<and> \<not> before_register (p_pc p) \<and> \<not> before_register (p_pc q)
             \<and> p_ctx p = p_ctx q \<longrightarrow> i = j)
      \<and> (\<forall>a. nextCtx s \<le> a \<longrightarrow> tcStatus (tctx s a) = StatusUnset))"

definition keyed :: "System \<Rightarrow> bool" where
  "keyed s = (\<forall>i t. repo s i = Some t \<longrightarrow> ID t = i)"

definition effect :: "System \<Rightarrow> System \<Rightarrow> bool" where
  "effect s s1 =
     ((\<forall>i p. procs s i = Some p \<longrightarrow>
         (\<exists>p1. procs s1 i = Some p1
            \<and> (\<not> may_store (p_pc p) \<longrightarrow>
                  \<not> may_store (p_pc p1) \<and> (repo s1 i = repo s i \<or> repo s1 i = None))
            \<and> (\<not> before_register (p_pc p) \<longrightarrow>
                  \<not> before_register (p_pc p1) \<and> p_ctx p1 = p_ctx p)))
      \<and> (\<forall>a. tcStatus (tctx s1 a) \<noteq> tcStatus (tctx s a) \<longrightarrow>
             (tcStatus (tctx s a) = StatusUnset \<and> tcStatus (tctx s1 a) = StatusProcessing)
             \<or> (tcStatus (tctx s a) = StatusProcessing \<and> terminal (tcStatus (tctx s1 a))))
      \<and> (\<forall>i t t1. repo s i = Some t \<and> repo s1 i = Some t1 \<and> Status t1 \<noteq> Status t \<longrightarrow>
             Status t = StatusProcessing \<and> terminal (Status t1)))"

section \<open>The task store: its contract\<close>

lemma Task_rebuild:
  "\<lparr>ID = ID t, Name = Name t, Status = Status t, CreatedAt = CreatedAt t,
         ProcessingTime = ProcessingTime t\<rparr> = (t::Task)"
  by (cases t) simp

lemma copyTask_Some:
  "copyTask m (Some p) = (m\<lparr>cells := (cells m)(next_free m := cells m p), next_free := Suc (next_free m)\<rparr>, Some (next_free m))"
  unfolding copyTask_def Let_def Task_rebuild by simp

text \<open>
  C7. The error contract of the task store. \<open>Create\<close> fails with the already-exists error
  exactly when the identifier of the task is present, and otherwise succeeds and holds
  the task with its creation time stamped; \<open>GetByID\<close> fails with the not-found error
  exactly when the identifier is absent, and otherwise returns a record equal to the
  stored one; \<open>Update\<close> fails with the not-found error exactly when the identifier is
  absent, and otherwise the stored record is the one given; \<open>Delete\<close> fails with the
  not-found error exactly when the identifier is absent, and otherwise removes the
  record and no other.
\<close>

theorem store_error_contract:
  "(fst (Create r m now (Some p)) = Some (AlreadyExists (ID (cells m p)))
      \<longleftrightarrow> store r (ID (cells m p)) \<noteq> None)
   \<and> (store r (ID (cells m p)) = None \<longrightarrow>
        (case Create r m now (Some p) of
           (err, r1, m1) \<Rightarrow>
             err = None \<and>
             stored r1 m1 (ID (cells m p)) = Some ((cells m p)\<lparr>CreatedAt := now\<rparr>)))
   \<and> (fst (GetByID r m taskID) = Inl (NotFound taskID) \<longleftrightarrow> store r taskID = None)
   \<and> (\<forall>a. store r taskID = Some a \<longrightarrow>
        (\<exists>q. fst (GetByID r m taskID) = Inr q
           \<and> cells (snd (GetByID r m taskID)) q = cells m a))
   \<and> (fst (Update r m (Some p)) = Some (NotFound (ID (cells m p)))
      \<longleftrightarrow> store r (ID (cells m p)) = None)
   \<and> (store r (ID (cells m p)) \<noteq> None \<longrightarrow>
        (case Update r m (Some p) of
           (err, r1, m1) \<Rightarrow>
             err = None \<and> stored r1 m1 (ID (cells m p)) = Some (cells m p)))
   \<and> (fst (Delete r taskID) = Some (NotFound taskID) \<longleftrightarrow> store r taskID = None)
   \<and> (store r taskID \<noteq> None \<longrightarrow>
        (case Delete r taskID of
           (err, r1) \<Rightarrow> err = None \<and> store r1 taskID = None
              \<and> (\<forall>k. k \<noteq> taskID \<longrightarrow> store r1 k = store r k)))"
  by (auto simp: Create_def GetByID_def Update_def Delete_def copyTask_Some stored_def
      write_cell_def Let_def split: option.splits)

theorem store_error_contract_witness:
  "fst (Create repository0 memory0 5 (Some 0)) = Some (AlreadyExists 7)
   \<and> (case Create repository0 memory0 5 (Some 1) of
          (err, r1, m1) \<Rightarrow> err = None \<and> stored r1 m1 9 = Some (task_b\<lparr>CreatedAt := 5\<rparr>))
   \<and> fst (GetByID repository0 memory0 9) = Inl (NotFound 9)
   \<and> (\<exists>q. fst (GetByID repository0 memory0 7) = Inr q
          \<and> cells (snd (GetByID repository0 memory0 7)) q = task_a)
   \<and> fst (Update repository0 memory0 (Some 1)) = Some (NotFound 9)
   \<and> (case Update repository0 memory0 (Some 0) of
          (err, r1, m1) \<Rightarrow> err = None \<and> stored r1 m1 7 = Some task_a)
   \<and> fst (Delete repository0 9) = Some (NotFound 9)
   \<and> (case Delete repository0 7 of (err, r1) \<Rightarrow> err = None \<and> store r1 7 = None)"
  using store_error_contract [of repository0 memory0 5 0 7]
        store_error_contract [of repository0 memory0 5 1 9]
  by (simp add: repository0_def memory0_def task_a_def task_b_def Create_def GetByID_def
      Update_def Delete_def copyTask_Some stored_def write_cell_def Let_def)

section \<open>The task store: copies at the boundary\<close>

lemma stored_write_caller:
  "\<forall>k. store r k \<noteq> Some q \<Longrightarrow> stored r (write_cell m q t) = stored r m"
proof
  fix x
  assume "\<forall>k. store r k \<noteq> Some q"
  then show "stored r (write_cell m q t) x = stored r m x"
    by (cases "store r x") (auto simp: stored_def write_cell_def)
qed

lemma heap_ok_fresh: "heap_ok r m \<Longrightarrow> store r k \<noteq> Some (next_free m)"
  by (auto simp: heap_ok_def)

lemma stored_copy:
  assumes "heap_ok r m"
  shows "stored r (m\<lparr>cells := (cells m)(next_free m := t), next_free := Suc (next_free m)\<rparr>)
       = stored r m"
proof
  fix x
  show "stored r (m\<lparr>cells := (cells m)(next_free m := t), next_free := Suc (next_free m)\<rparr>) x
       = stored r m x"
    using assms by (cases "store r x") (auto simp: stored_def heap_ok_def)
qed

lemma GetAll_range_frame:
  "heap_ok r m \<Longrightarrow> GetAll_range r m ks acc = (qs, m1) \<Longrightarrow>
     next_free m \<le> next_free m1
     \<and> (\<forall>a < next_free m. cells m1 a = cells m a)
     \<and> (\<exists>new. qs = acc @ new \<and> set new \<subseteq> {next_free m ..< next_free m1}
            \<and> map (cells m1) new = List.map_filter (stored r m) ks)"
proof (induction ks arbitrary: m acc)
  case Nil
  then show ?case by simp
next
  case (Cons k ks)
  show ?case
  proof (cases "store r k")
    case None
    with Cons.prems have "GetAll_range r m ks acc = (qs, m1)" by simp
    from Cons.IH [OF Cons.prems(1) this] None show ?thesis
      by (simp add: stored_def)
  next
    case (Some a)
    let ?m = "m\<lparr>cells := (cells m)(next_free m := cells m a), next_free := Suc (next_free m)\<rparr>"
    have ok: "heap_ok r ?m" using Cons.prems(1) by (auto simp: heap_ok_def less_Suc_eq)
    have run: "GetAll_range r ?m ks (acc @ [next_free m]) = (qs, m1)"
      using Cons.prems(2) Some by (simp add: copyTask_Some)
    have st: "stored r ?m = stored r m" using Cons.prems(1) by (rule stored_copy)
    from Cons.IH [OF ok run] obtain new where
      1: "Suc (next_free m) \<le> next_free m1" and
      2: "\<forall>b < Suc (next_free m). cells m1 b = cells ?m b" and
      3: "qs = (acc @ [next_free m]) @ new" and
      4: "set new \<subseteq> {Suc (next_free m) ..< next_free m1}" and
      5: "map (cells m1) new = List.map_filter (stored r ?m) ks"
      by auto
    from 2 have top: "cells m1 (next_free m) = cells m a" by simp
    from 2 have old: "\<forall>b < next_free m. cells m1 b = cells m b" by simp
    have "qs = acc @ (next_free m # new)" using 3 by simp
    moreover have "set (next_free m # new) \<subseteq> {next_free m ..< next_free m1}"
      using 1 4 by auto
    moreover have "map (cells m1) (next_free m # new) = List.map_filter (stored r m) (k # ks)"
      using 5 st top Some by (simp add: stored_def)
    ultimately show ?thesis using 1 old by (intro conjI exI [of _ "next_free m # new"]) auto
  qed
qed

lemma Create_refines:
  assumes "heap_ok r m" and "caller_owned r m p"
  shows "(case Create r m now (Some p) of
            (err, r1, m1) \<Rightarrow>
              Repository_Create (stored r m) now (cells m p) = (err, stored r1 m1, cells m1 p)
              \<and> heap_ok r1 m1 \<and> caller_owned r1 m1 p)"
proof (cases "store r (ID (cells m p))")
  case None
  let ?t = "(cells m p)\<lparr>CreatedAt := now\<rparr>"
  let ?m1 = "write_cell m p ?t"
  let ?m2 = "?m1\<lparr>cells := (cells ?m1)(next_free ?m1 := ?t), next_free := Suc (next_free ?m1)\<rparr>"
  have nf: "next_free ?m1 = next_free m" by (simp add: write_cell_def)
  have c: "Create r m now (Some p)
           = (None, r\<lparr>store := (store r)(ID (cells m p) \<mapsto> next_free m)\<rparr>, ?m2)"
    using None by (simp add: Create_def copyTask_Some Let_def write_cell_def)
  have p: "p < next_free m" "\<forall>k. store r k \<noteq> Some p"
    using assms(2) by (auto simp: caller_owned_def)
  have "stored (r\<lparr>store := (store r)(ID (cells m p) \<mapsto> next_free m)\<rparr>) ?m2
          = (stored r m)(ID (cells m p) \<mapsto> ?t)"
  proof
    fix x
    show "stored (r\<lparr>store := (store r)(ID (cells m p) \<mapsto> next_free m)\<rparr>) ?m2 x
          = ((stored r m)(ID (cells m p) \<mapsto> ?t)) x"
      using assms(1) p
      by (cases "store r x") (auto simp: stored_def write_cell_def heap_ok_def)
  qed
  moreover have "cells ?m2 p = ?t" using p by (simp add: write_cell_def)
  moreover have "heap_ok (r\<lparr>store := (store r)(ID (cells m p) \<mapsto> next_free m)\<rparr>) ?m2"
    using assms(1) by (auto simp: heap_ok_def write_cell_def less_Suc_eq)
  moreover have "caller_owned (r\<lparr>store := (store r)(ID (cells m p) \<mapsto> next_free m)\<rparr>) ?m2 p"
    using p by (auto simp: caller_owned_def write_cell_def)
  ultimately show ?thesis using None c
    by (simp add: Repository_Create_def stored_def Let_def)
next
  case (Some a)
  then show ?thesis using assms
    by (simp add: Create_def Repository_Create_def stored_def)
qed

lemma Update_refines:
  assumes "heap_ok r m" and "caller_owned r m p"
  shows "(case Update r m (Some p) of
            (err, r1, m1) \<Rightarrow>
              Repository_Update (stored r m) (cells m p) = (err, stored r1 m1)
              \<and> cells m1 p = cells m p
              \<and> heap_ok r1 m1 \<and> caller_owned r1 m1 p)"
proof (cases "store r (ID (cells m p))")
  case None
  then show ?thesis using assms
    by (simp add: Update_def Repository_Update_def stored_def)
next
  case (Some a)
  let ?m2 = "m\<lparr>cells := (cells m)(next_free m := cells m p), next_free := Suc (next_free m)\<rparr>"
  have c: "Update r m (Some p)
           = (None, r\<lparr>store := (store r)(ID (cells m p) \<mapsto> next_free m)\<rparr>, ?m2)"
    using Some by (simp add: Update_def copyTask_Some)
  have p: "p < next_free m" "\<forall>k. store r k \<noteq> Some p"
    using assms(2) by (auto simp: caller_owned_def)
  have "stored (r\<lparr>store := (store r)(ID (cells m p) \<mapsto> next_free m)\<rparr>) ?m2
          = (stored r m)(ID (cells m p) \<mapsto> cells m p)"
  proof
    fix x
    show "stored (r\<lparr>store := (store r)(ID (cells m p) \<mapsto> next_free m)\<rparr>) ?m2 x
          = ((stored r m)(ID (cells m p) \<mapsto> cells m p)) x"
      using assms(1) p
      by (cases "store r x") (auto simp: stored_def heap_ok_def)
  qed
  moreover have "cells ?m2 p = cells m p" using p by simp
  moreover have "heap_ok (r\<lparr>store := (store r)(ID (cells m p) \<mapsto> next_free m)\<rparr>) ?m2"
    using assms(1) by (auto simp: heap_ok_def less_Suc_eq)
  moreover have "caller_owned (r\<lparr>store := (store r)(ID (cells m p) \<mapsto> next_free m)\<rparr>) ?m2 p"
    using p by (auto simp: caller_owned_def)
  ultimately show ?thesis using Some c
    by (simp add: Repository_Update_def stored_def)
qed

lemma GetByID_refines:
  assumes "heap_ok r m"
  shows "(case GetByID r m taskID of
            (res, m1) \<Rightarrow>
              map_sum (\<lambda>e. e) (cells m1) res = Repository_GetByID (stored r m) taskID
              \<and> stored r m1 = stored r m \<and> heap_ok r m1
              \<and> (\<forall>q. res = Inr q \<longrightarrow> caller_owned r m1 q \<and> next_free m \<le> q))"
proof (cases "store r taskID")
  case None
  then show ?thesis using assms
    by (simp add: GetByID_def Repository_GetByID_def stored_def)
next
  case (Some a)
  have "heap_ok r (m\<lparr>cells := (cells m)(next_free m := cells m a), next_free := Suc (next_free m)\<rparr>)"
    using assms by (auto simp: heap_ok_def less_Suc_eq)
  moreover have "caller_owned r
      (m\<lparr>cells := (cells m)(next_free m := cells m a), next_free := Suc (next_free m)\<rparr>)
      (next_free m)"
    using assms by (auto simp: caller_owned_def heap_ok_def)
  ultimately show ?thesis using Some stored_copy [OF assms, of "cells m a"]
    by (simp add: GetByID_def Repository_GetByID_def copyTask_Some stored_def)
qed

lemma Delete_refines:
  "(case Delete r taskID of
      (err, r1) \<Rightarrow> Repository_Delete (stored r m) taskID = (err, stored r1 m)
         \<and> (heap_ok r m \<longrightarrow> heap_ok r1 m)
         \<and> (caller_owned r m p \<longrightarrow> caller_owned r1 m p))"
  by (auto simp: Delete_def Repository_Delete_def stored_def fun_eq_iff heap_ok_def
      caller_owned_def)

lemma GetAll_refines:
  assumes "heap_ok r m"
  shows "(case GetAll r m ks of
            (res, m1) \<Rightarrow>
              map_sum (\<lambda>e. e) (map (cells m1)) res = Repository_GetAll (stored r m) ks
              \<and> stored r m1 = stored r m \<and> heap_ok r m1
              \<and> (\<forall>qs. res = Inr qs \<longrightarrow> (\<forall>q\<in>set qs. caller_owned r m1 q \<and> next_free m \<le> q)))"
proof -
  obtain qs m1 where run: "GetAll_range r m ks [] = (qs, m1)" by (cases "GetAll_range r m ks []")
  from GetAll_range_frame [OF assms run] obtain new where
    1: "next_free m \<le> next_free m1" and
    2: "\<forall>a < next_free m. cells m1 a = cells m a" and
    3: "qs = new" and
    4: "set new \<subseteq> {next_free m ..< next_free m1}" and
    5: "map (cells m1) new = List.map_filter (stored r m) ks"
    by auto
  have st: "stored r m1 = stored r m"
  proof
    fix x show "stored r m1 x = stored r m x"
      using assms 2 by (cases "store r x") (auto simp: stored_def heap_ok_def)
  qed
  have ok: "heap_ok r m1" using assms 1 by (fastforce simp: heap_ok_def)
  have own: "\<forall>q\<in>set qs. caller_owned r m1 q \<and> next_free m \<le> q"
    using 3 4 assms by (fastforce simp: caller_owned_def heap_ok_def)
  from run 3 5 st ok own show ?thesis
    by (simp add: GetAll_def Repository_GetAll_def)
qed

lemma stored_agree:
  assumes "\<forall>k b. store r k = Some b \<longrightarrow> cells m2 b = cells m1 b"
  shows "stored r m2 = stored r m1"
proof
  fix x show "stored r m2 x = stored r m1 x"
    using assms by (cases "store r x") (auto simp: stored_def)
qed

lemma GetAll_cells_kept:
  assumes "heap_ok r m" and "a < next_free m"
  shows "cells (snd (GetAll r m ks)) a = cells m a"
proof -
  obtain qs m1 where run: "GetAll_range r m ks [] = (qs, m1)" by (cases "GetAll_range r m ks []")
  from GetAll_range_frame [OF assms(1) run] assms(2) have "cells m1 a = cells m a" by simp
  with run show ?thesis by (simp add: GetAll_def)
qed

text \<open>
  C9. The store exchanges copies. \<open>GetByID\<close> returns a new record, equal to the stored
  one and at another address, and \<open>GetAll\<close> returns new records equal to the stored
  ones: whatever the caller then writes into the returned records, the store holds what it
  held. After \<open>Create\<close> and \<open>Update\<close>, whatever the caller writes into the record it
  passed, the store holds what it held when the call returned. And no operation writes
  into a record the store holds: a record is replaced as a whole, by a pointer to a new
  copy, so a reader never sees a record that is partly updated.
\<close>

theorem store_exchanges_copies:
  assumes "heap_ok r m"
  shows
  "(\<forall>a. store r taskID = Some a \<longrightarrow>
      (case GetByID r m taskID of
         (res, m1) \<Rightarrow>
           \<exists>q. res = Inr q \<and> q \<noteq> a \<and> cells m1 q = cells m a
             \<and> (\<forall>m2. (\<forall>b. b \<noteq> q \<longrightarrow> cells m2 b = cells m1 b)
                    \<longrightarrow> stored r m2 = stored r m)))
   \<and> (case GetAll r m ks of
         (res, m1) \<Rightarrow>
           \<exists>qs. res = Inr qs
             \<and> map (cells m1) qs = List.map_filter (stored r m) ks
             \<and> (\<forall>m2. (\<forall>b. b \<notin> set qs \<longrightarrow> cells m2 b = cells m1 b)
                    \<longrightarrow> stored r m2 = stored r m))
   \<and> (caller_owned r m p \<longrightarrow>
        (case Create r m now (Some p) of
           (err, r1, m1) \<Rightarrow>
             heap_ok r1 m1
             \<and> (\<forall>m2. (\<forall>b. b \<noteq> p \<longrightarrow> cells m2 b = cells m1 b)
                    \<longrightarrow> stored r1 m2 = stored r1 m1)))
   \<and> (caller_owned r m p \<longrightarrow>
        (case Update r m (Some p) of
           (err, r1, m1) \<Rightarrow>
             heap_ok r1 m1
             \<and> (\<forall>m2. (\<forall>b. b \<noteq> p \<longrightarrow> cells m2 b = cells m1 b)
                    \<longrightarrow> stored r1 m2 = stored r1 m1)))
   \<and> (\<forall>k a. store r k = Some a \<longrightarrow>
         cells (snd (GetByID r m taskID)) a = cells m a
         \<and> cells (snd (GetAll r m ks)) a = cells m a
         \<and> (caller_owned r m p \<longrightarrow>
               cells (snd (snd (Create r m now (Some p)))) a = cells m a
               \<and> cells (snd (snd (Update r m (Some p)))) a = cells m a))"
proof (intro conjI)
  show "\<forall>a. store r taskID = Some a \<longrightarrow>
      (case GetByID r m taskID of
         (res, m1) \<Rightarrow>
           \<exists>q. res = Inr q \<and> q \<noteq> a \<and> cells m1 q = cells m a
             \<and> (\<forall>m2. (\<forall>b. b \<noteq> q \<longrightarrow> cells m2 b = cells m1 b)
                    \<longrightarrow> stored r m2 = stored r m))"
  proof (intro allI impI)
    fix a assume a: "store r taskID = Some a"
    define m1 where
      "m1 = m\<lparr>cells := (cells m)(next_free m := cells m a), next_free := Suc (next_free m)\<rparr>"
    have g: "GetByID r m taskID = (Inr (next_free m), m1)"
      using a by (simp add: GetByID_def copyTask_Some m1_def)
    have lt: "next_free m \<noteq> a" using a assms by (auto simp: heap_ok_def)
    have eq: "cells m1 (next_free m) = cells m a" by (simp add: m1_def)
    have old: "\<forall>b < next_free m. cells m1 b = cells m b" by (simp add: m1_def)
    have ind: "\<forall>m2::memory. (\<forall>b. b \<noteq> next_free m \<longrightarrow> cells m2 b = cells m1 b)
                 \<longrightarrow> stored r m2 = stored r m"
    proof (intro allI impI)
      fix m2 :: memory
      assume that: "\<forall>b. b \<noteq> next_free m \<longrightarrow> cells m2 b = cells m1 b"
      have "\<forall>k b. store r k = Some b \<longrightarrow> cells m2 b = cells m b"
      proof (intro allI impI)
        fix k b assume "store r k = Some b"
        then have b: "b < next_free m" using assms by (auto simp: heap_ok_def)
        then have "cells m2 b = cells m1 b" using that by simp
        with b old show "cells m2 b = cells m b" by simp
      qed
      then show "stored r m2 = stored r m" by (rule stored_agree)
    qed
    show "(case GetByID r m taskID of
         (res, m1) \<Rightarrow>
           \<exists>q. res = Inr q \<and> q \<noteq> a \<and> cells m1 q = cells m a
             \<and> (\<forall>m2. (\<forall>b. b \<noteq> q \<longrightarrow> cells m2 b = cells m1 b)
                    \<longrightarrow> stored r m2 = stored r m))"
      unfolding g prod.case using lt eq ind by blast
  qed
next
  obtain qs m1 where run: "GetAll_range r m ks [] = (qs, m1)" by (cases "GetAll_range r m ks []")
  from GetAll_range_frame [OF assms run] have
    2: "\<forall>a < next_free m. cells m1 a = cells m a" and
    4: "set qs \<subseteq> {next_free m ..< next_free m1}" and
    5: "map (cells m1) qs = List.map_filter (stored r m) ks"
    by auto
  have ind: "stored r m2 = stored r m" if "\<forall>b. b \<notin> set qs \<longrightarrow> cells m2 b = cells m1 b" for m2 :: memory
  proof -
    have "\<forall>k b. store r k = Some b \<longrightarrow> cells m2 b = cells m b"
    proof (intro allI impI)
      fix k b assume "store r k = Some b"
      then have b: "b < next_free m" using assms by (auto simp: heap_ok_def)
      then have "b \<notin> set qs" using 4 by auto
      with that 2 b show "cells m2 b = cells m b" by simp
    qed
    then show ?thesis by (rule stored_agree)
  qed
  have ga: "GetAll r m ks = (Inr qs, m1)" using run by (simp add: GetAll_def)
  show "(case GetAll r m ks of
         (res, m1) \<Rightarrow>
           \<exists>qs. res = Inr qs
             \<and> map (cells m1) qs = List.map_filter (stored r m) ks
             \<and> (\<forall>m2. (\<forall>b. b \<notin> set qs \<longrightarrow> cells m2 b = cells m1 b)
                    \<longrightarrow> stored r m2 = stored r m))"
    unfolding ga prod.case using 5 ind by blast
next
  show "caller_owned r m p \<longrightarrow>
        (case Create r m now (Some p) of
           (err, r1, m1) \<Rightarrow>
             heap_ok r1 m1
             \<and> (\<forall>m2. (\<forall>b. b \<noteq> p \<longrightarrow> cells m2 b = cells m1 b)
                    \<longrightarrow> stored r1 m2 = stored r1 m1))"
  proof
    assume own: "caller_owned r m p"
    obtain err r1 m1 where c: "Create r m now (Some p) = (err, r1, m1)"
      by (cases "Create r m now (Some p)")
    from Create_refines [OF assms own, of now] c
    have ok: "heap_ok r1 m1" and own1: "caller_owned r1 m1 p" by auto
    have ind: "stored r1 m2 = stored r1 m1" if "\<forall>b. b \<noteq> p \<longrightarrow> cells m2 b = cells m1 b" for m2 :: memory
    proof -
      have "\<forall>k b. store r1 k = Some b \<longrightarrow> cells m2 b = cells m1 b"
      proof (intro allI impI)
        fix k b assume "store r1 k = Some b"
        then have "b \<noteq> p" using own1 by (auto simp: caller_owned_def)
        with that show "cells m2 b = cells m1 b" by simp
      qed
      then show ?thesis by (rule stored_agree)
    qed
    show "(case Create r m now (Some p) of
           (err, r1, m1) \<Rightarrow>
             heap_ok r1 m1
             \<and> (\<forall>m2. (\<forall>b. b \<noteq> p \<longrightarrow> cells m2 b = cells m1 b)
                    \<longrightarrow> stored r1 m2 = stored r1 m1))"
      unfolding c prod.case using ok ind by blast
  qed
next
  show "caller_owned r m p \<longrightarrow>
        (case Update r m (Some p) of
           (err, r1, m1) \<Rightarrow>
             heap_ok r1 m1
             \<and> (\<forall>m2. (\<forall>b. b \<noteq> p \<longrightarrow> cells m2 b = cells m1 b)
                    \<longrightarrow> stored r1 m2 = stored r1 m1))"
  proof
    assume own: "caller_owned r m p"
    obtain err r1 m1 where c: "Update r m (Some p) = (err, r1, m1)"
      by (cases "Update r m (Some p)")
    from Update_refines [OF assms own] c
    have ok: "heap_ok r1 m1" and own1: "caller_owned r1 m1 p" by auto
    have ind: "stored r1 m2 = stored r1 m1" if "\<forall>b. b \<noteq> p \<longrightarrow> cells m2 b = cells m1 b" for m2 :: memory
    proof -
      have "\<forall>k b. store r1 k = Some b \<longrightarrow> cells m2 b = cells m1 b"
      proof (intro allI impI)
        fix k b assume "store r1 k = Some b"
        then have "b \<noteq> p" using own1 by (auto simp: caller_owned_def)
        with that show "cells m2 b = cells m1 b" by simp
      qed
      then show ?thesis by (rule stored_agree)
    qed
    show "(case Update r m (Some p) of
           (err, r1, m1) \<Rightarrow>
             heap_ok r1 m1
             \<and> (\<forall>m2. (\<forall>b. b \<noteq> p \<longrightarrow> cells m2 b = cells m1 b)
                    \<longrightarrow> stored r1 m2 = stored r1 m1))"
      unfolding c prod.case using ok ind by blast
  qed
next
  show "\<forall>k a. store r k = Some a \<longrightarrow>
         cells (snd (GetByID r m taskID)) a = cells m a
         \<and> cells (snd (GetAll r m ks)) a = cells m a
         \<and> (caller_owned r m p \<longrightarrow>
               cells (snd (snd (Create r m now (Some p)))) a = cells m a
               \<and> cells (snd (snd (Update r m (Some p)))) a = cells m a)"
  proof (intro allI impI)
    fix k a assume ka: "store r k = Some a"
    then have lt: "a < next_free m" using assms by (auto simp: heap_ok_def)
    have 1: "cells (snd (GetByID r m taskID)) a = cells m a"
      using lt by (cases "store r taskID") (auto simp: GetByID_def copyTask_Some)
    have 2: "cells (snd (GetAll r m ks)) a = cells m a"
      using assms lt by (rule GetAll_cells_kept)
    have 3: "cells (snd (snd (Create r m now (Some p)))) a = cells m a
               \<and> cells (snd (snd (Update r m (Some p)))) a = cells m a"
      if "caller_owned r m p"
    proof -
      from that ka have "a \<noteq> p" by (auto simp: caller_owned_def)
      with lt show ?thesis
        by (auto simp: Create_def Update_def copyTask_Some write_cell_def Let_def)
    qed
    from 1 2 3 show "cells (snd (GetByID r m taskID)) a = cells m a
         \<and> cells (snd (GetAll r m ks)) a = cells m a
         \<and> (caller_owned r m p \<longrightarrow>
               cells (snd (snd (Create r m now (Some p)))) a = cells m a
               \<and> cells (snd (snd (Update r m (Some p)))) a = cells m a)"
      by blast
  qed
qed

theorem store_exchanges_copies_witness:
  "heap_ok repository0 memory0 \<and> caller_owned repository0 memory0 1
   \<and> (case GetByID repository0 memory0 7 of
          (res, m1) \<Rightarrow> res = Inr 2 \<and> cells m1 2 = task_a
             \<and> stored repository0 (write_cell m1 2 task_b) 7 = Some task_a)
   \<and> (case Create repository0 memory0 5 (Some 1) of
          (err, r1, m1) \<Rightarrow> err = None
             \<and> stored r1 (write_cell m1 1 task_a) 9 = Some (task_b\<lparr>CreatedAt := 5\<rparr>))"
  using store_exchanges_copies [where r = repository0 and m = memory0 and taskID = 7
      and ks = "[7]" and p = 1 and now = 5]
  by (simp add: heap_ok_def caller_owned_def repository0_def memory0_def task_a_def task_b_def
      GetByID_def Create_def copyTask_Some stored_def write_cell_def Let_def)

section \<open>The execution context\<close>

lemma markFinished_finished:
  "Done tc \<Longrightarrow> markFinished status tc = tc\<lparr>tcStatus := status\<rparr>"
  by (simp add: markFinished_def Let_def)

lemma markFinished_Done: "Done (markFinished status tc)"
  by (simp add: markFinished_def Let_def)

lemma markFinished_calls_finished:
  "Done tc \<Longrightarrow> markFinished_calls (status # rest) tc
      = (0, tc\<lparr>tcStatus := last (status # rest)\<rparr>)"
proof (induction rest arbitrary: status tc)
  case Nil
  then show ?case by (simp add: markFinished_finished markFinished_closes_def)
next
  case (Cons x rest)
  have "Done (markFinished status tc)" by (rule markFinished_Done)
  from Cons.IH [OF this, of x] Cons.prems show ?case
    by (simp add: markFinished_finished markFinished_closes_def)
qed

text \<open>
  C1, as the code has it. In any sequence of \<open>markFinished\<close> calls on one context the
  channel is closed exactly once, by the first call on a context that is not finished
  (and never when the context is finished already), and it stays closed; the recorded
  status afterwards is the status of the last call, since every call overwrites it.
\<close>

theorem markFinished_calls_once_last_status:
  "fst (markFinished_calls (status # rest) tc) = (if Done tc then 0 else 1)
   \<and> snd (markFinished_calls (status # rest) tc)
       = tc\<lparr>tcStatus := last (status # rest), Done := True\<rparr>"
proof (cases "Done tc")
  case True
  then have "tc\<lparr>tcStatus := x, Done := True\<rparr> = tc\<lparr>tcStatus := x\<rparr>" for x
    by (cases tc) simp
  with True markFinished_calls_finished [OF True, of status rest] show ?thesis
    by (simp del: markFinished_calls.simps)
next
  case False
  show ?thesis
  proof (cases rest)
    case Nil
    with False show ?thesis by (simp add: markFinished_def markFinished_closes_def)
  next
    case (Cons x xs)
    have "Done (markFinished status tc)" by (rule markFinished_Done)
    from markFinished_calls_finished [OF this, of x xs] False Cons show ?thesis
      by (simp add: markFinished_def markFinished_closes_def)
  qed
qed

text \<open>
  C1 as stated fails: after \<open>markFinished(StatusDone)\<close> the recorded status is
  \<open>StatusDone\<close>, and a later \<open>markFinished(StatusFailed)\<close> on the same context is not a
  no-op, it replaces the recorded status by \<open>StatusFailed\<close>.
\<close>

theorem markFinished_first_status_counterexample:
  "tcStatus (snd (markFinished_calls [StatusDone] context0)) = StatusDone
   \<and> tcStatus (snd (markFinished_calls [StatusDone, StatusFailed] context0)) = StatusFailed"
  by (simp add: markFinished_def markFinished_closes_def context0_def)

section \<open>The coordinator\<close>

text \<open>
  C6. \<open>GetTask\<close> propagates the not-found error of the store; when the fetched task is
  \<open>PROCESSING\<close> and the registry holds a context for its identifier that is not finished,
  the returned copy carries the clock minus the start of that context as its processing
  time; in every other case the fetched record is returned as it is.
\<close>

theorem GetTask_overlay:
  "(repo s taskID = None \<longrightarrow>
      GetTask s now taskID = Inl (Wrap ''task not found'' (NotFound taskID)))
   \<and> (\<forall>task a. repo s taskID = Some task \<and> Status task = StatusProcessing
          \<and> contexts s (ID task) = Some a \<and> \<not> IsFinished (tctx s a)
        \<longrightarrow> GetTask s now taskID
              = Inr (task\<lparr>ProcessingTime := now - Started (tctx s a)\<rparr>))
   \<and> (\<forall>task. repo s taskID = Some task
          \<and> \<not> (Status task = StatusProcessing
                \<and> (\<exists>a. contexts s (ID task) = Some a \<and> \<not> IsFinished (tctx s a)))
        \<longrightarrow> GetTask s now taskID = Inr task)"
  by (auto simp: GetTask_def Repository_GetByID_def updateTaskProcessingTime_def
      loadTaskContext_def IsProcessing_def Since_def split: option.splits)

theorem GetTask_overlay_witness:
  "GetTask service0 (5 * Second) 7 = Inr (task_a\<lparr>ProcessingTime := 5 * Second\<rparr>)
   \<and> GetTask service0 (5 * Second) 9 = Inl (Wrap ''task not found'' (NotFound 9))
   \<and> GetTask (service0\<lparr>contexts := (\<lambda>_. None)\<rparr>) (5 * Second) 7 = Inr task_a"
  using GetTask_overlay [of service0 7 "5 * Second"] GetTask_overlay [of service0 9 "5 * Second"]
    GetTask_overlay [of "service0\<lparr>contexts := (\<lambda>_. None)\<rparr>" 7 "5 * Second"]
  by (simp add: service0_def NewService_def task_a_def context0_def IsFinished_def)

text \<open>
  C8. Whatever \<open>rand.Intn(3)\<close> draws, the workload duration lies between 3 and 6 minutes:
  it is 3, 4 or 5 minutes, one value for each draw (so a uniform draw gives a uniform
  duration), and always below the timeout. The timeout of the task's context is
  6 minutes, counted from the start recorded in the task's context.
\<close>

theorem workDuration_range:
  "(\<forall>r\<in>{0..<3}. 3 * Minute \<le> workDuration r \<and> workDuration r \<le> 6 * Minute
        \<and> workDuration r < defaultTimeToProcessTask
        \<and> workDuration r \<in> {3 * Minute, 4 * Minute, 5 * Minute})
   \<and> inj_on workDuration {0..<3}
   \<and> defaultTimeToProcessTask = 6 * Minute
   \<and> (repo s newID = None \<longrightarrow>
        (case CreateTask s now newID name of
           (res, spawned, s1) \<Rightarrow>
             (\<exists>task. res = Inr task \<and> spawned = Some (task, nextCtx s))
             \<and> contexts s1 newID = Some (nextCtx s)
             \<and> Started (tctx s1 (nextCtx s)) = now
             \<and> Deadline (tctx s1 (nextCtx s)) = Started (tctx s1 (nextCtx s)) + 6 * Minute))"
proof -
  have a: "\<forall>r\<in>{0..<3}. 3 * Minute \<le> workDuration r \<and> workDuration r \<le> 6 * Minute
        \<and> workDuration r < defaultTimeToProcessTask
        \<and> workDuration r \<in> {3 * Minute, 4 * Minute, 5 * Minute}"
  proof
    fix r :: int assume "r \<in> {0..<3}"
    then have "r = 0 \<or> r = 1 \<or> r = 2" by auto
    then show "3 * Minute \<le> workDuration r \<and> workDuration r \<le> 6 * Minute
        \<and> workDuration r < defaultTimeToProcessTask
        \<and> workDuration r \<in> {3 * Minute, 4 * Minute, 5 * Minute}"
      by (auto simp: workDuration_def Minute_def Second_def Nanosecond_def
          defaultTimeToProcessTask_def)
  qed
  have b: "inj_on workDuration {0..<3}"
    by (rule inj_onI) (simp add: workDuration_def Minute_def Second_def Nanosecond_def)
  have c: "repo s newID = None \<longrightarrow>
        (case CreateTask s now newID name of
           (res, spawned, s1) \<Rightarrow>
             (\<exists>task. res = Inr task \<and> spawned = Some (task, nextCtx s))
             \<and> contexts s1 newID = Some (nextCtx s)
             \<and> Started (tctx s1 (nextCtx s)) = now
             \<and> Deadline (tctx s1 (nextCtx s)) = Started (tctx s1 (nextCtx s)) + 6 * Minute)"
    by (simp add: CreateTask_def Repository_Create_def NewTask_def WithName_def SetStatus_def
        Let_def defaultTimeToProcessTask_def)
  from a b c show ?thesis by (simp add: defaultTimeToProcessTask_def)
qed

theorem workDuration_range_witness:
  "workDuration 0 = 180000000000 \<and> workDuration 2 = 300000000000
   \<and> defaultTimeToProcessTask = 360000000000
   \<and> Deadline (tctx (snd (snd (CreateTask (NewService (\<lambda>_. None)) 1000 7 ''alpha''))) 0)
       = 360000001000"
  using workDuration_range [of "NewService (\<lambda>_. None)" 7 1000 "''alpha''"]
  by (simp add: workDuration_def Minute_def Second_def Nanosecond_def NewService_def
      defaultTimeToProcessTask_def CreateTask_def Repository_Create_def NewTask_def
      WithName_def SetStatus_def Let_def)

section \<open>The executor\<close>

lemma finalizeTask_result:
  "finalizeTask s task status pt =
     (if repo s (ID task) = None then s
      else s\<lparr>repo := (repo s)(ID task \<mapsto> task\<lparr>Status := status, ProcessingTime := pt\<rparr>)\<rparr>,
      task\<lparr>Status := status, ProcessingTime := pt\<rparr>)"
  by (simp add: finalizeTask_def Repository_Update_def Let_def)

text \<open>
  C4. The ticker has a period of one second. On a tick the executor computes the elapsed
  time. When it has reached the workload duration the task is finalised as \<open>DONE\<close> with
  that elapsed time (written to the store when the record is there, the context marked
  finished with \<open>DONE\<close>) and the executor returns. Otherwise the elapsed time is written
  to the store and the loop goes on; when that write fails, the task is finalised as
  \<open>FAILED\<close> with that elapsed time, the context is marked finished with \<open>FAILED\<close>, and
  the executor returns.
\<close>

theorem executeTask_tick_algorithm:
  "tickerInterval = 1000000000
   \<and> (wd \<le> now - start \<longrightarrow>
        (case executeTask_tick s a task wd start now of
           (s1, task1, out) \<Rightarrow>
             out = Return
             \<and> task1 = task\<lparr>Status := StatusDone, ProcessingTime := now - start\<rparr>
             \<and> repo s1 = (if repo s (ID task) = None then repo s
                          else (repo s)(ID task \<mapsto> task1))
             \<and> tctx s1 = (tctx s)(a := markFinished StatusDone (tctx s a))
             \<and> IsFinished (tctx s1 a) \<and> tcStatus (tctx s1 a) = StatusDone))
   \<and> (now - start < wd \<and> repo s (ID task) \<noteq> None \<longrightarrow>
        (case executeTask_tick s a task wd start now of
           (s1, task1, out) \<Rightarrow>
             out = Continue
             \<and> task1 = task\<lparr>ProcessingTime := now - start\<rparr>
             \<and> repo s1 = (repo s)(ID task \<mapsto> task1)
             \<and> tctx s1 = tctx s))
   \<and> (now - start < wd \<and> repo s (ID task) = None \<longrightarrow>
        (case executeTask_tick s a task wd start now of
           (s1, task1, out) \<Rightarrow>
             out = Return
             \<and> task1 = task\<lparr>Status := StatusFailed, ProcessingTime := now - start\<rparr>
             \<and> repo s1 = repo s
             \<and> tctx s1 = (tctx s)(a := markFinished StatusFailed (tctx s a))
             \<and> IsFinished (tctx s1 a) \<and> tcStatus (tctx s1 a) = StatusFailed))"
  by (auto simp: executeTask_tick_def finalizeTask_result Repository_Update_def mark_def
      Since_def Let_def tickerInterval_def Second_def Nanosecond_def IsFinished_def
      markFinished_def)

theorem executeTask_tick_algorithm_witness:
  "(case executeTask_tick service0 0 task_a (3 * Minute) 0 (3 * Minute) of
      (s1, task1, out) \<Rightarrow>
        out = Return \<and> Status task1 = StatusDone \<and> ProcessingTime task1 = 3 * Minute
        \<and> repo s1 7 = Some task1 \<and> tcStatus (tctx s1 0) = StatusDone)
   \<and> (case executeTask_tick service0 0 task_a (3 * Minute) 0 Second of
      (s1, task1, out) \<Rightarrow>
        out = Continue \<and> repo s1 7 = Some (task_a\<lparr>ProcessingTime := Second\<rparr>)
        \<and> tctx s1 = tctx service0)
   \<and> (case executeTask_tick (service0\<lparr>repo := (\<lambda>_. None)\<rparr>) 0 task_a (3 * Minute) 0 Second of
      (s1, task1, out) \<Rightarrow>
        out = Return \<and> Status task1 = StatusFailed \<and> ProcessingTime task1 = Second
        \<and> repo s1 7 = None \<and> tcStatus (tctx s1 0) = StatusFailed)"
  using executeTask_tick_algorithm [where wd = "3 * Minute" and now = "3 * Minute" and start = 0
      and s = service0 and a = 0 and task = task_a, THEN conjunct2]
    executeTask_tick_algorithm [where wd = "3 * Minute" and now = Second and start = 0
      and s = service0 and a = 0 and task = task_a, THEN conjunct2]
    executeTask_tick_algorithm [where wd = "3 * Minute" and now = Second and start = 0
      and s = "service0\<lparr>repo := (\<lambda>_. None)\<rparr>" and a = 0 and task = task_a, THEN conjunct2]
  by (simp add: service0_def NewService_def task_a_def context0_def Minute_def Second_def
      Nanosecond_def markFinished_def executeTask_tick_def finalizeTask_result
      Repository_Update_def mark_def Since_def Let_def)

text \<open>
  C10. When the record is there at the first check and the registry holds a context for
  the identifier, but the record is gone when the last call runs, \<open>DeleteTask\<close> returns
  the error of the failed delete and leaves the state as it found it at that moment:
  the context had already been cancelled (its \<open>ctx.Done()\<close> is ready from then on) and
  removed from the registry by the middle block, which does not touch the store.
\<close>

theorem DeleteTask_late_failure:
  "repo s taskID \<noteq> None \<and> contexts s taskID = Some a
     \<and> repo (between (DeleteTask_cancel s taskID)) taskID = None
   \<longrightarrow> DeleteTask_with between s taskID
         = (Some (Wrap ''failed to delete task'' (NotFound taskID)),
            between (DeleteTask_cancel s taskID))
       \<and> contexts (DeleteTask_cancel s taskID) taskID = None
       \<and> Cancelled (tctx (DeleteTask_cancel s taskID) a)
       \<and> ctx_Done (tctx (DeleteTask_cancel s taskID) a) now
       \<and> repo (DeleteTask_cancel s taskID) = repo s"
  by (auto simp: DeleteTask_with_def DeleteTask_delete_def DeleteTask_cancel_def
      Repository_GetByID_def Repository_Delete_def loadTaskContext_def Cancel_def ctx_Done_def
      split: option.splits)

theorem DeleteTask_late_failure_witness:
  "fst (DeleteTask_with (\<lambda>s. s\<lparr>repo := (repo s)(7 := None)\<rparr>) service0 7)
     = Some (Wrap ''failed to delete task'' (NotFound 7))
   \<and> contexts (snd (DeleteTask_with (\<lambda>s. s\<lparr>repo := (repo s)(7 := None)\<rparr>) service0 7)) 7 = None
   \<and> Cancelled (tctx (snd (DeleteTask_with (\<lambda>s. s\<lparr>repo := (repo s)(7 := None)\<rparr>) service0 7)) 0)
   \<and> \<not> Cancelled (tctx service0 0)"
  using DeleteTask_late_failure [where s = service0 and taskID = 7 and a = 0
      and between = "\<lambda>s. s\<lparr>repo := (repo s)(7 := None)\<rparr>" and now = 0]
  by (simp add: service0_def NewService_def context0_def task_a_def DeleteTask_cancel_def
      loadTaskContext_def Cancel_def)

section \<open>Shutdown\<close>


lemma Shutdown_range_contexts: "contexts (Shutdown_range s ks) = contexts s"
  by (induction ks arbitrary: s) (auto split: option.splits)

lemma Shutdown_range_keeps:
  "Done (tctx (Shutdown_range s ks) b) = Done (tctx s b)
   \<and> tcStatus (tctx (Shutdown_range s ks) b) = tcStatus (tctx s b)
   \<and> (Cancelled (tctx s b) \<longrightarrow> Cancelled (tctx (Shutdown_range s ks) b))"
  by (induction ks arbitrary: s) (auto simp: Cancel_def split: option.splits)

lemma Shutdown_range_repo: "repo (Shutdown_range s ks) = repo s \<and> wg (Shutdown_range s ks) = wg s"
  by (induction ks arbitrary: s) (auto split: option.splits)

lemma Shutdown_range_cancels:
  "k \<in> set ks \<Longrightarrow> contexts s k = Some a \<Longrightarrow> \<not> IsFinished (tctx s a)
     \<Longrightarrow> Cancelled (tctx (Shutdown_range s ks) a)"
proof (induction ks arbitrary: s)
  case Nil
  then show ?case by simp
next
  case (Cons x ks)
  show ?case
  proof (cases "x = k")
    case True
    have "Cancelled (tctx (s\<lparr>tctx := (tctx s)(a := Cancel (tctx s a))\<rparr>) a)"
      by (simp add: Cancel_def)
    then have "Cancelled (tctx (Shutdown_range (s\<lparr>tctx := (tctx s)(a := Cancel (tctx s a))\<rparr>) ks) a)"
      using Shutdown_range_keeps by blast
    with True Cons.prems show ?thesis by simp
  next
    case False
    with Cons.prems have k: "k \<in> set ks" by simp
    show ?thesis
    proof (cases "contexts s x")
      case None
      with Cons.IH [OF k Cons.prems(2) Cons.prems(3)] show ?thesis by simp
    next
      case (Some b)
      show ?thesis
      proof (cases "IsFinished (tctx s b)")
        case True
        with Some Cons.IH [OF k Cons.prems(2) Cons.prems(3)] show ?thesis by simp
      next
        case nf: False
        let ?s1 = "s\<lparr>tctx := (tctx s)(b := Cancel (tctx s b))\<rparr>"
        have c: "contexts ?s1 k = Some a" using Cons.prems(2) by simp
        have f: "\<not> IsFinished (tctx ?s1 a)"
          using Cons.prems(3) by (auto simp: IsFinished_def Cancel_def)
        from Cons.IH [OF k c f] Some nf show ?thesis by simp
      qed
    qed
  qed
qed

text \<open>
  C2, as the code has it. \<open>Shutdown\<close> cancels every registered context that is not
  finished (\<open>Range\<close> visiting every key) and changes neither the registry nor the store. Its
  wait is bounded by the earlier of the caller's deadline and 30 seconds after the call. It
  returns no error when the drain completes before that bound and the bound has not passed
  when the wait starts; it returns the timeout error when the drain never completes, or
  completes only after the wait has started and after the 30 seconds or the caller's
  context being done; when the drain has completed and the caller's context is done
  already as the wait starts, it returns either. It returns nothing else.
\<close>

theorem Shutdown_bounded_by_30_seconds:
  "(case Shutdown s ks now ctxDone drained pick of
      (err, s1) \<Rightarrow>
        (dom (contexts s) \<subseteq> set ks \<longrightarrow>
           (\<forall>k a. contexts s k = Some a \<and> \<not> IsFinished (tctx s a)
              \<longrightarrow> Cancelled (tctx s1 a)))
        \<and> contexts s1 = contexts s \<and> repo s1 = repo s
        \<and> (\<forall>d. drained = Some d \<and> d < now + 30 * Second
                 \<and> (\<forall>c. ctxDone = Some c \<longrightarrow> d < c \<and> now < c) \<longrightarrow> err = None)
        \<and> ((drained = None \<or> (\<exists>d. drained = Some d \<and> now < d
                 \<and> (now + 30 * Second < d \<or> (\<exists>c. ctxDone = Some c \<and> c < d))))
            \<longrightarrow> err = Some ShutdownTimeout)
        \<and> (\<forall>d c. drained = Some d \<and> d \<le> now \<and> ctxDone = Some c \<and> c \<le> now
              \<longrightarrow> err = (if pick then Some ShutdownTimeout else None))
        \<and> (err = None \<or> err = Some ShutdownTimeout))"
proof -
  have pos: "now < now + 30 * Second" by (simp add: Second_def Nanosecond_def)
  have sel1: "\<forall>d. drained = Some d \<and> d < now + 30 * Second
                 \<and> (\<forall>c. ctxDone = Some c \<longrightarrow> d < c \<and> now < c)
               \<longrightarrow> Shutdown_select now ctxDone drained pick = None"
    using pos
    by (auto simp: Shutdown_select_def shutdownCtx_done_def shutdownTimeout_def Let_def
        split: option.splits)
  have sel2: "(drained = None \<or> (\<exists>d. drained = Some d \<and> now < d
                 \<and> (now + 30 * Second < d \<or> (\<exists>c. ctxDone = Some c \<and> c < d))))
            \<longrightarrow> Shutdown_select now ctxDone drained pick = Some ShutdownTimeout"
    using pos
    by (auto simp: Shutdown_select_def shutdownCtx_done_def shutdownTimeout_def Let_def
        split: option.splits)
  have sel3: "\<forall>d c. drained = Some d \<and> d \<le> now \<and> ctxDone = Some c \<and> c \<le> now
              \<longrightarrow> Shutdown_select now ctxDone drained pick
                    = (if pick then Some ShutdownTimeout else None)"
    using pos
    by (auto simp: Shutdown_select_def shutdownCtx_done_def shutdownTimeout_def Let_def
        split: option.splits)
  have sel4: "Shutdown_select now ctxDone drained pick = None
            \<or> Shutdown_select now ctxDone drained pick = Some ShutdownTimeout"
    by (auto simp: Shutdown_select_def Let_def split: option.splits)
  have can: "dom (contexts s) \<subseteq> set ks \<longrightarrow>
           (\<forall>k a. contexts s k = Some a \<and> \<not> IsFinished (tctx s a)
              \<longrightarrow> Cancelled (tctx (Shutdown_range s ks) a))"
  proof (intro impI allI)
    fix k a
    assume d: "dom (contexts s) \<subseteq> set ks"
      and h: "contexts s k = Some a \<and> \<not> IsFinished (tctx s a)"
    then have "k \<in> set ks" by auto
    with h show "Cancelled (tctx (Shutdown_range s ks) a)"
      using Shutdown_range_cancels by blast
  qed
  have fr: "contexts (Shutdown_range s ks) = contexts s \<and> repo (Shutdown_range s ks) = repo s"
    by (simp add: Shutdown_range_contexts Shutdown_range_repo)
  from sel1 sel2 sel3 sel4 can fr show ?thesis
    unfolding Shutdown_def prod.case by blast
qed

theorem Shutdown_bounded_by_30_seconds_witness:
  "fst (Shutdown service0 [7] 0 (Some (60 * Second)) (Some (10 * Second)) True) = None
   \<and> Cancelled (tctx (snd (Shutdown service0 [7] 0 (Some (60 * Second)) (Some (10 * Second)) True)) 0)
   \<and> fst (Shutdown service0 [7] 0 (Some (20 * Second)) (Some (25 * Second)) False)
       = Some ShutdownTimeout
   \<and> fst (Shutdown service0 [7] 0 None None False) = Some ShutdownTimeout
   \<and> fst (Shutdown service0 [7] (100 * Second) (Some (10 * Second)) (Some (50 * Second)) True)
       = Some ShutdownTimeout
   \<and> fst (Shutdown service0 [7] (100 * Second) (Some (10 * Second)) (Some (50 * Second)) False)
       = None"
  using Shutdown_bounded_by_30_seconds [where s = service0 and ks = "[7]" and now = 0
      and ctxDone = "Some (60 * Second)" and drained = "Some (10 * Second)" and pick = True]
    Shutdown_bounded_by_30_seconds [where s = service0 and ks = "[7]" and now = 0
      and ctxDone = "Some (20 * Second)" and drained = "Some (25 * Second)" and pick = False]
    Shutdown_bounded_by_30_seconds [where s = service0 and ks = "[7]" and now = 0
      and ctxDone = None and drained = None and pick = False]
    Shutdown_bounded_by_30_seconds [where s = service0 and ks = "[7]" and now = "100 * Second"
      and ctxDone = "Some (10 * Second)" and drained = "Some (50 * Second)" and pick = True]
    Shutdown_bounded_by_30_seconds [where s = service0 and ks = "[7]" and now = "100 * Second"
      and ctxDone = "Some (10 * Second)" and drained = "Some (50 * Second)" and pick = False]
  by (simp add: service0_def NewService_def context0_def IsFinished_def Second_def
      Nanosecond_def Shutdown_def Shutdown_select_def shutdownCtx_done_def shutdownTimeout_def
      Cancel_def Let_def)

text \<open>
  C2 as stated fails: the wait starts at 0, the caller's deadline is 60 seconds away and
  the drain completes after 45 seconds, within that deadline, yet \<open>Shutdown\<close> returns the
  timeout error whichever way a \<open>select\<close> would choose, because its own \<open>shutdownTimeout\<close> of
  30 seconds has passed.
\<close>

theorem Shutdown_caller_deadline_counterexample:
  "45 * Second < 60 * Second
   \<and> fst (Shutdown service0 [7] 0 (Some (60 * Second)) (Some (45 * Second)) False)
       = Some ShutdownTimeout
   \<and> fst (Shutdown service0 [7] 0 (Some (60 * Second)) (Some (45 * Second)) True)
       = Some ShutdownTimeout"
  by (simp add: Shutdown_def Shutdown_select_def shutdownCtx_done_def shutdownTimeout_def
      Second_def Nanosecond_def Let_def)


section \<open>The interleaved system and the sequential functions\<close>

text \<open>
  When nothing runs in between, the steps of a call do what the sequential function does:
  \<open>DeleteTask\<close>, \<open>CreateTask\<close>, and in \<open>executeTask\<close> the tick, the cancellation and the
  deferred function.
\<close>

lemma DeleteTask_uninterleaved:
  assumes "deleters s n = None"
  shows "run (CallDeleteTask n taskID # replicate (DeleteTask_steps s taskID) (DeleteStep n)) s
         = Some ((snd (DeleteTask s taskID))
                   \<lparr>deleters := (deleters s)(n \<mapsto> (taskID, DelReturned (fst (DeleteTask s taskID))))\<rparr>)"
proof (cases "repo s taskID")
  case None
  with assms show ?thesis
    by (simp add: DeleteTask_steps_def DeleteTask_def DeleteTask_with_def set_del_def
        Repository_GetByID_def)
next
  case (Some t)
  show ?thesis
  proof (cases "contexts s taskID")
    case None
    with Some assms show ?thesis
      by (simp add: DeleteTask_steps_def DeleteTask_def DeleteTask_with_def set_del_def
          Repository_GetByID_def loadTaskContext_def DeleteTask_cancel_def DeleteTask_delete_def
          Repository_Delete_def eval_nat_numeral)
  next
    case (Some a)
    with \<open>repo s taskID = Some t\<close> assms show ?thesis
      by (simp add: DeleteTask_steps_def DeleteTask_def DeleteTask_with_def set_del_def
          Repository_GetByID_def loadTaskContext_def DeleteTask_cancel_def DeleteTask_delete_def
          Repository_Delete_def eval_nat_numeral)
  qed
qed

lemma tick_uninterleaved:
  assumes "procs s i = Some p" and "p_pc p = Select" and "p_tick p \<le> clock s"
  shows "(case executeTask_tick s (p_ctx p) (p_task p) (p_wd p) (p_start p) (clock s) of
            (s1, task1, out) \<Rightarrow>
              run (Tick i # replicate (tick_steps s p) (Step i)) s
                = Some (set_proc i
                     (p\<lparr>p_tick := p_tick p + tickerInterval,
                        p_elapsed := Since (clock s) (p_start p),
                        p_task := task1,
                        p_pc := (case out of Continue \<Rightarrow> Select | Return \<Rightarrow> DeferWgDone)\<rparr>)
                     s1))"
proof (cases "p_wd p \<le> Since (clock s) (p_start p)")
  case True
  show ?thesis
  proof (cases "repo s (ID (p_task p))")
    case None
    with True assms show ?thesis
      by (simp add: tick_steps_def executeTask_tick_def finalizeTask_result tick_step_def
          set_proc_def mark_def Let_def eval_nat_numeral)
  next
    case (Some t)
    with True assms show ?thesis
      by (simp add: tick_steps_def executeTask_tick_def finalizeTask_result tick_step_def
          set_proc_def mark_def Let_def eval_nat_numeral)
  qed
next
  case False
  show ?thesis
  proof (cases "repo s (ID (p_task p))")
    case None
    with False assms show ?thesis
      by (simp add: tick_steps_def executeTask_tick_def finalizeTask_result tick_step_def
          set_proc_def mark_def Let_def eval_nat_numeral Repository_Update_def)
  next
    case (Some t)
    with False assms show ?thesis
      by (simp add: tick_steps_def executeTask_tick_def finalizeTask_result tick_step_def
          set_proc_def mark_def Let_def eval_nat_numeral Repository_Update_def)
  qed
qed

lemma CreateTask_uninterleaved:
  assumes "procs s i = None" and "repo s i = None"
  shows "(case CreateTask s (clock s) i name of
            (res, spawned, s1) \<Rightarrow>
              res = Inr (fst (the spawned))
              \<and> run [CallCreateTask i name, Step i, Step i, Step i, Step i, Step i] s
                  = Some (set_proc i
                       \<lparr>p_pc = Start, p_task = fst (the spawned), p_ctx = snd (the spawned),
                        p_wd = 0, p_start = 0, p_elapsed = 0, p_tick = 0\<rparr> s1))"
  using assms
  by (simp add: CreateTask_def Repository_Create_def NewTask_def WithName_def SetStatus_def
      set_proc_def Let_def)

lemma cancelled_uninterleaved:
  assumes "procs s i = Some p" and "p_pc p = Select"
    and "ctx_Done (tctx s (p_ctx p)) (clock s)"
  shows "(case executeTask_cancelled s (p_ctx p) (p_task p) (p_start p) (clock s) of
            (s1, task1) \<Rightarrow>
              run (CtxDone i # replicate (cancelled_steps s p) (Step i)) s
                = Some (set_proc i (p\<lparr>p_task := task1, p_pc := DeferWgDone\<rparr>) s1))"
proof (cases "repo s (ID (p_task p))")
  case None
  with assms show ?thesis
    by (simp add: cancelled_steps_def executeTask_cancelled_def finalizeTask_result
        ctxdone_step_def set_proc_def mark_def eval_nat_numeral)
next
  case (Some t)
  with assms show ?thesis
    by (simp add: cancelled_steps_def executeTask_cancelled_def finalizeTask_result
        ctxdone_step_def set_proc_def mark_def eval_nat_numeral)
qed

lemma deferred_uninterleaved:
  assumes "procs s i = Some p" and "p_pc p = DeferWgDone"
  shows "run (replicate (deferred_steps s p) (Step i)) s
           = Some (set_proc i (p\<lparr>p_pc := Exited\<rparr>)
                     (executeTask_deferred s (p_ctx p) (p_task p)))"
proof (cases "IsFinished (tctx s (p_ctx p))")
  case True
  with assms show ?thesis
    by (simp add: deferred_steps_def executeTask_deferred_def set_proc_def mark_def Let_def
        eval_nat_numeral)
next
  case False
  with assms show ?thesis
    by (simp add: deferred_steps_def executeTask_deferred_def set_proc_def mark_def Let_def
        eval_nat_numeral)
qed

lemma DeleteTask_alone:
  "(repo s taskID = None \<longrightarrow>
      DeleteTask s taskID = (Some (Wrap ''task not found'' (NotFound taskID)), s))
   \<and> (repo s taskID \<noteq> None \<longrightarrow>
        (case DeleteTask s taskID of
           (err, s1) \<Rightarrow>
             err = None \<and> repo s1 = (repo s)(taskID := None) \<and> contexts s1 taskID = None
             \<and> (\<forall>a. contexts s taskID = Some a \<longrightarrow> Cancelled (tctx s1 a))
             \<and> GetTask s1 now taskID = Inl (Wrap ''task not found'' (NotFound taskID))))"
  by (auto simp: DeleteTask_def DeleteTask_with_def DeleteTask_cancel_def DeleteTask_delete_def
      Repository_GetByID_def Repository_Delete_def loadTaskContext_def Cancel_def GetTask_def
      split: option.splits)

section \<open>The interleaved system: what every reachable state satisfies\<close>

lemma consistent_NewSystem: "consistent NewSystem"
  by (simp add: consistent_def NewSystem_def NewService_def Service.extend_def)

lemma proc_ok_frame:
  assumes "proc_ok s j q"
    and "repo s1 j = repo s j \<or> repo s1 j = None"
    and "contexts s1 j = contexts s j \<or> contexts s1 j = None"
    and "nextCtx s \<le> nextCtx s1"
    and "\<not> before_register (p_pc q) \<longrightarrow>
           tcStatus (tctx s1 (p_ctx q)) = tcStatus (tctx s (p_ctx q))
           \<and> Done (tctx s1 (p_ctx q)) = Done (tctx s (p_ctx q))"
  shows "proc_ok s1 j q"
proof -
  have u: "unmarked (p_pc q) \<or> marked (p_pc q) \<longrightarrow> \<not> before_register (p_pc q)"
    by (cases "p_pc q") simp_all
  from assms(1) have ok: "ID (p_task q) = j" "status_ok (p_pc q) (p_task q)"
    "before_store (p_pc q) \<longrightarrow> repo s j = None"
    "before_register (p_pc q) \<longrightarrow> contexts s j = None"
    "may_store (p_pc q) \<longrightarrow> (\<forall>t. repo s j = Some t \<longrightarrow> Status t = StatusProcessing)"
    "\<not> before_register (p_pc q) \<longrightarrow>
       p_ctx q < nextCtx s \<and> (contexts s j = None \<or> contexts s j = Some (p_ctx q))"
    "unmarked (p_pc q) \<longrightarrow>
       tcStatus (tctx s (p_ctx q)) = StatusProcessing \<and> \<not> Done (tctx s (p_ctx q))"
    "marked (p_pc q) \<longrightarrow>
       terminal (tcStatus (tctx s (p_ctx q))) \<and> Done (tctx s (p_ctx q))"
    by (simp_all add: proc_ok_def)
  have 3: "before_store (p_pc q) \<longrightarrow> repo s1 j = None" using ok(3) assms(2) by auto
  have 4: "before_register (p_pc q) \<longrightarrow> contexts s1 j = None" using ok(4) assms(3) by auto
  have 5: "may_store (p_pc q) \<longrightarrow> (\<forall>t. repo s1 j = Some t \<longrightarrow> Status t = StatusProcessing)"
    using ok(5) assms(2) by auto
  have 6: "\<not> before_register (p_pc q) \<longrightarrow>
       p_ctx q < nextCtx s1 \<and> (contexts s1 j = None \<or> contexts s1 j = Some (p_ctx q))"
    using ok(6) assms(3) assms(4) by auto
  have 7: "unmarked (p_pc q) \<longrightarrow>
       tcStatus (tctx s1 (p_ctx q)) = StatusProcessing \<and> \<not> Done (tctx s1 (p_ctx q))"
    using ok(7) assms(5) u by auto
  have 8: "marked (p_pc q) \<longrightarrow>
       terminal (tcStatus (tctx s1 (p_ctx q))) \<and> Done (tctx s1 (p_ctx q))"
    using ok(8) assms(5) u by auto
  from ok(1) ok(2) 3 4 5 6 7 8 show ?thesis by (simp add: proc_ok_def)
qed

text \<open>A step of a goroutine that is not one of the task processes.\<close>

lemma consistent_step_env:
  assumes "consistent s"
    and "procs s1 = procs s"
    and "\<forall>j. repo s1 j = repo s j \<or> repo s1 j = None"
    and "\<forall>j. contexts s1 j = contexts s j \<or> contexts s1 j = None"
    and "nextCtx s1 = nextCtx s"
    and "\<forall>a. tcStatus (tctx s1 a) = tcStatus (tctx s a) \<and> Done (tctx s1 a) = Done (tctx s a)"
  shows "consistent s1"
proof -
  have 1: "\<forall>i p. procs s1 i = Some p \<longrightarrow> proc_ok s1 i p"
  proof (intro allI impI)
    fix i p assume "procs s1 i = Some p"
    then have "proc_ok s i p" using assms(1) assms(2) by (simp add: consistent_def)
    then show "proc_ok s1 i p"
      using assms(3) assms(4) assms(5) assms(6) by (intro proc_ok_frame [of s i p s1]) auto
  qed
  have 2: "\<forall>i. procs s1 i = None \<longrightarrow> repo s1 i = None \<and> contexts s1 i = None"
  proof (intro allI impI)
    fix i assume "procs s1 i = None"
    then have "repo s i = None \<and> contexts s i = None"
      using assms(1) assms(2) by (simp add: consistent_def)
    then show "repo s1 i = None \<and> contexts s1 i = None"
      using assms(3) [rule_format, of i] assms(4) [rule_format, of i] by auto
  qed
  have 3: "\<forall>i j p q. procs s1 i = Some p \<and> procs s1 j = Some q
             \<and> \<not> before_register (p_pc p) \<and> \<not> before_register (p_pc q)
             \<and> p_ctx p = p_ctx q \<longrightarrow> i = j"
    using assms(1) assms(2) unfolding consistent_def by simp
  have 4: "\<forall>a. nextCtx s1 \<le> a \<longrightarrow> tcStatus (tctx s1 a) = StatusUnset"
    using assms(1) assms(5) assms(6) by (simp add: consistent_def)
  from 1 2 3 4 show ?thesis unfolding consistent_def by blast
qed

text \<open>A step of the process of task \<open>i\<close>.\<close>

lemma consistent_step_proc:
  assumes "consistent s"
    and "procs s i = Some p"
    and "procs s1 = (procs s)(i \<mapsto> p1)"
    and "proc_ok s1 i p1"
    and "\<forall>j. j \<noteq> i \<longrightarrow> repo s1 j = repo s j \<and> contexts s1 j = contexts s j"
    and "nextCtx s \<le> nextCtx s1"
    and "\<forall>a. a < nextCtx s \<and> (before_register (p_pc p) \<or> a \<noteq> p_ctx p) \<longrightarrow>
           tcStatus (tctx s1 a) = tcStatus (tctx s a) \<and> Done (tctx s1 a) = Done (tctx s a)"
    and "\<forall>a. nextCtx s1 \<le> a \<longrightarrow> tcStatus (tctx s1 a) = StatusUnset"
    and "before_register (p_pc p1)
         \<or> (\<not> before_register (p_pc p) \<and> p_ctx p1 = p_ctx p)
         \<or> nextCtx s \<le> p_ctx p1"
  shows "consistent s1"
proof -
  have others: "proc_ok s j q \<and> (\<not> before_register (p_pc q) \<longrightarrow> p_ctx q < nextCtx s
                  \<and> (\<not> before_register (p_pc p) \<longrightarrow> p_ctx q \<noteq> p_ctx p))"
    if "j \<noteq> i" "procs s j = Some q" for j q
  proof -
    have ok: "proc_ok s j q" using assms(1) that(2) by (simp add: consistent_def)
    then have lt: "\<not> before_register (p_pc q) \<longrightarrow> p_ctx q < nextCtx s"
      by (simp add: proc_ok_def)
    have "\<not> before_register (p_pc q) \<and> \<not> before_register (p_pc p) \<longrightarrow> p_ctx q \<noteq> p_ctx p"
    proof (intro impI notI)
      assume h: "\<not> before_register (p_pc q) \<and> \<not> before_register (p_pc p)" and e: "p_ctx q = p_ctx p"
      from assms(1) have "\<forall>i j p q. procs s i = Some p \<and> procs s j = Some q
             \<and> \<not> before_register (p_pc p) \<and> \<not> before_register (p_pc q)
             \<and> p_ctx p = p_ctx q \<longrightarrow> i = j" by (simp add: consistent_def)
      from this [rule_format, of j q i p] that(2) assms(2) h e have "j = i" by simp
      with that(1) show False by simp
    qed
    with ok lt show ?thesis by simp
  qed
  have 1: "\<forall>j q. procs s1 j = Some q \<longrightarrow> proc_ok s1 j q"
  proof (intro allI impI)
    fix j q assume a: "procs s1 j = Some q"
    show "proc_ok s1 j q"
    proof (cases "j = i")
      case True
      with a assms(3) assms(4) show ?thesis by simp
    next
      case False
      with a assms(3) have q: "procs s j = Some q" by simp
      note o = others [OF False q]
      show ?thesis
      proof (rule proc_ok_frame [of s j q s1])
        show "proc_ok s j q" using o by simp
        show "repo s1 j = repo s j \<or> repo s1 j = None" using assms(5) False by simp
        show "contexts s1 j = contexts s j \<or> contexts s1 j = None" using assms(5) False by simp
        show "nextCtx s \<le> nextCtx s1" by (rule assms(6))
        show "\<not> before_register (p_pc q) \<longrightarrow>
           tcStatus (tctx s1 (p_ctx q)) = tcStatus (tctx s (p_ctx q))
           \<and> Done (tctx s1 (p_ctx q)) = Done (tctx s (p_ctx q))"
          using o assms(7) [rule_format, of "p_ctx q"] by blast
      qed
    qed
  qed
  have 2: "\<forall>j. procs s1 j = None \<longrightarrow> repo s1 j = None \<and> contexts s1 j = None"
  proof (intro allI impI)
    fix j assume a: "procs s1 j = None"
    with assms(3) have ne: "j \<noteq> i" by (auto split: if_splits)
    with a assms(3) have "procs s j = None" by simp
    then have "repo s j = None \<and> contexts s j = None" using assms(1) by (simp add: consistent_def)
    with assms(5) ne show "repo s1 j = None \<and> contexts s1 j = None" by simp
  qed
  have 3: "\<forall>j k q r. procs s1 j = Some q \<and> procs s1 k = Some r
             \<and> \<not> before_register (p_pc q) \<and> \<not> before_register (p_pc r)
             \<and> p_ctx q = p_ctx r \<longrightarrow> j = k"
  proof (intro allI impI)
    fix j k q r
    assume h: "procs s1 j = Some q \<and> procs s1 k = Some r
             \<and> \<not> before_register (p_pc q) \<and> \<not> before_register (p_pc r)
             \<and> p_ctx q = p_ctx r"
    have own: "p_ctx q' \<noteq> p_ctx p1"
      if "k' \<noteq> i" "procs s k' = Some q'" "\<not> before_register (p_pc q')"
         "\<not> before_register (p_pc p1)" for k' q'
      using others [OF that(1) that(2)] that(3) that(4) assms(9) by auto
    show "j = k"
    proof (cases "j = i")
      case ji: True
      show ?thesis
      proof (cases "k = i")
        case True with ji show ?thesis by simp
      next
        case False
        with h assms(3) have r: "procs s k = Some r" by simp
        from ji h assms(3) have q: "q = p1" by simp
        from own [OF False r] h q show ?thesis by auto
      qed
    next
      case nji: False
      with h assms(3) have q: "procs s j = Some q" by simp
      show ?thesis
      proof (cases "k = i")
        case True
        with h assms(3) have r: "r = p1" by simp
        from own [OF nji q] h r show ?thesis by auto
      next
        case False
        with h assms(3) have r: "procs s k = Some r" by simp
        from assms(1) have "\<forall>i j p q. procs s i = Some p \<and> procs s j = Some q
             \<and> \<not> before_register (p_pc p) \<and> \<not> before_register (p_pc q)
             \<and> p_ctx p = p_ctx q \<longrightarrow> i = j" by (simp add: consistent_def)
        from this [rule_format, of j q k r] q r h show ?thesis by simp
      qed
    qed
  qed
  from 1 2 3 assms(8) show ?thesis unfolding consistent_def by blast
qed

lemma consistent_proc_ok: "consistent s \<Longrightarrow> procs s i = Some p \<Longrightarrow> proc_ok s i p"
  by (simp add: consistent_def)

lemma consistent_unallocated:
  "consistent s \<Longrightarrow> nextCtx s \<le> a \<Longrightarrow> tcStatus (tctx s a) = StatusUnset"
  by (simp add: consistent_def)

lemma consistent_proc_step:
  assumes c: "consistent s" and p: "procs s i = Some p"
    and st: "proc_step i p (p_pc p) s = Some s1"
  shows "consistent s1"
proof -
  note ok = consistent_proc_ok [OF c p]
  note un = consistent_unallocated [OF c]
  show ?thesis
  proof (cases "p_pc p")
    case CreateLoad
    with st ok show ?thesis
      by (intro consistent_step_proc [OF c p, where ?p1.0 = "p\<lparr>p_pc := CreateStore\<rparr>"])
         (auto simp: proc_ok_def set_proc_def un)
  next
    case CreateStore
    with st ok show ?thesis
      by (intro consistent_step_proc [OF c p, where
            ?p1.0 = "p\<lparr>p_task := (p_task p)\<lparr>CreatedAt := clock s\<rparr>, p_pc := Register\<rparr>"])
         (auto simp: proc_ok_def set_proc_def un Let_def)
  next
    case CreateFailed
    with st show ?thesis by simp
  next
    case Register
    with st ok show ?thesis
      by (intro consistent_step_proc [OF c p, where
            ?p1.0 = "p\<lparr>p_ctx := nextCtx s, p_pc := WgAdd\<rparr>"])
         (auto simp: proc_ok_def set_proc_def un Let_def)
  next
    case WgAdd
    with st ok show ?thesis
      by (intro consistent_step_proc [OF c p, where ?p1.0 = "p\<lparr>p_pc := Spawn\<rparr>"])
         (auto simp: proc_ok_def set_proc_def un)
  next
    case Spawn
    with st ok show ?thesis
      by (intro consistent_step_proc [OF c p, where ?p1.0 = "p\<lparr>p_pc := Start\<rparr>"])
         (auto simp: proc_ok_def set_proc_def un)
  next
    case Start
    with st show ?thesis by simp
  next
    case Select
    with st show ?thesis by simp
  next
    case UpdateLoad
    show ?thesis
    proof (cases "repo s (ID (p_task p)) = None")
      case True
      with UpdateLoad st ok show ?thesis
        by (intro consistent_step_proc [OF c p, where
              ?p1.0 = "p\<lparr>p_task := (p_task p)\<lparr>Status := StatusFailed,
                                                ProcessingTime := p_elapsed p\<rparr>,
                          p_pc := FinalizeLoad StatusFailed\<rparr>"])
           (auto simp: proc_ok_def set_proc_def un terminal_def)
    next
      case False
      with UpdateLoad st ok show ?thesis
        by (intro consistent_step_proc [OF c p, where ?p1.0 = "p\<lparr>p_pc := UpdateStore\<rparr>"])
           (auto simp: proc_ok_def set_proc_def un)
    qed
  next
    case UpdateStore
    with st ok show ?thesis
      by (intro consistent_step_proc [OF c p, where ?p1.0 = "p\<lparr>p_pc := Select\<rparr>"])
         (auto simp: proc_ok_def set_proc_def un)
  next
    case (FinalizeLoad x)
    show ?thesis
    proof (cases "repo s (ID (p_task p)) = None")
      case True
      with FinalizeLoad st ok show ?thesis
        by (intro consistent_step_proc [OF c p, where ?p1.0 = "p\<lparr>p_pc := MarkFinished x\<rparr>"])
           (auto simp: proc_ok_def set_proc_def un)
    next
      case False
      with FinalizeLoad st ok show ?thesis
        by (intro consistent_step_proc [OF c p, where ?p1.0 = "p\<lparr>p_pc := FinalizeStore x\<rparr>"])
           (auto simp: proc_ok_def set_proc_def un)
    qed
  next
    case (FinalizeStore x)
    with st ok show ?thesis
      by (intro consistent_step_proc [OF c p, where ?p1.0 = "p\<lparr>p_pc := MarkFinished x\<rparr>"])
         (auto simp: proc_ok_def set_proc_def un)
  next
    case (MarkFinished x)
    with st ok show ?thesis
      by (intro consistent_step_proc [OF c p, where ?p1.0 = "p\<lparr>p_pc := DeferWgDone\<rparr>"])
         (auto simp: proc_ok_def set_proc_def un mark_def markFinished_def)
  next
    case DeferWgDone
    with st ok show ?thesis
      by (intro consistent_step_proc [OF c p, where ?p1.0 = "p\<lparr>p_pc := DeferIsFinished\<rparr>"])
         (auto simp: proc_ok_def set_proc_def un)
  next
    case DeferIsFinished
    with st ok show ?thesis
      by (intro consistent_step_proc [OF c p, where ?p1.0 = "p\<lparr>p_pc := DeferDelete\<rparr>"])
         (auto simp: proc_ok_def set_proc_def un IsFinished_def)
  next
    case DeferMarkFinished
    with ok show ?thesis by (simp add: proc_ok_def)
  next
    case DeferDelete
    with st ok show ?thesis
      by (intro consistent_step_proc [OF c p, where ?p1.0 = "p\<lparr>p_pc := Exited\<rparr>"])
         (auto simp: proc_ok_def set_proc_def un)
  next
    case Exited
    with st show ?thesis by simp
  qed
qed

lemma consistent_tick_step:
  assumes c: "consistent s" and p: "procs s i = Some p" and st: "tick_step i p s = Some s1"
  shows "consistent s1"
proof -
  note ok = consistent_proc_ok [OF c p]
  note un = consistent_unallocated [OF c]
  from st have sel: "p_pc p = Select" by (simp add: tick_step_def split: if_splits)
  let ?e = "Since (clock s) (p_start p)"
  let ?p1 = "p\<lparr>p_tick := p_tick p + tickerInterval, p_elapsed := ?e,
                p_task := (p_task p)\<lparr>ProcessingTime := ?e\<rparr>\<rparr>"
  show ?thesis
  proof (cases "?e \<ge> p_wd p")
    case True
    with sel st ok show ?thesis
      by (intro consistent_step_proc [OF c p, where
            ?p1.0 = "?p1\<lparr>p_task := (p_task ?p1)\<lparr>Status := StatusDone, ProcessingTime := ?e\<rparr>,
                         p_pc := FinalizeLoad StatusDone\<rparr>"])
         (auto simp: proc_ok_def set_proc_def un tick_step_def Let_def terminal_def
           split: if_splits)
  next
    case False
    with sel st ok show ?thesis
      by (intro consistent_step_proc [OF c p, where ?p1.0 = "?p1\<lparr>p_pc := UpdateLoad\<rparr>"])
         (auto simp: proc_ok_def set_proc_def un tick_step_def Let_def split: if_splits)
  qed
qed

lemma consistent_ctxdone_step:
  assumes c: "consistent s" and p: "procs s i = Some p" and st: "ctxdone_step i p s = Some s1"
  shows "consistent s1"
proof -
  note ok = consistent_proc_ok [OF c p]
  note un = consistent_unallocated [OF c]
  from st have sel: "p_pc p = Select" by (simp add: ctxdone_step_def split: if_splits)
  with st ok show ?thesis
    by (intro consistent_step_proc [OF c p, where
          ?p1.0 = "p\<lparr>p_task := (p_task p)\<lparr>Status := StatusFailed,
                                            ProcessingTime := Since (clock s) (p_start p)\<rparr>,
                      p_pc := FinalizeLoad StatusFailed\<rparr>"])
       (auto simp: proc_ok_def set_proc_def un ctxdone_step_def terminal_def split: if_splits)
qed

lemma consistent_draw_step:
  assumes c: "consistent s" and p: "procs s i = Some p" and st: "draw_step i p r s = Some s1"
  shows "consistent s1"
proof -
  note ok = consistent_proc_ok [OF c p]
  note un = consistent_unallocated [OF c]
  from st have sel: "p_pc p = Start" by (simp add: draw_step_def split: if_splits)
  with st ok show ?thesis
    by (intro consistent_step_proc [OF c p, where
          ?p1.0 = "p\<lparr>p_wd := workDuration r, p_tick := clock s + tickerInterval,
                      p_start := clock s, p_pc := Select\<rparr>"])
       (auto simp: proc_ok_def set_proc_def un draw_step_def split: if_splits)
qed

lemma consistent_delete_step:
  assumes c: "consistent s" and st: "delete_step n taskID d s = Some s1"
  shows "consistent s1"
proof (cases d)
  case DelGetByID
  with st show ?thesis
    by (intro consistent_step_env [OF c])
       (auto simp: set_del_def Repository_GetByID_def split: option.splits)
next
  case DelLoadContext
  with st show ?thesis
    by (intro consistent_step_env [OF c])
       (auto simp: set_del_def loadTaskContext_def split: option.splits)
next
  case (DelCancel a)
  with st have s1: "s1 = set_del n taskID DelContextsDelete
                            (s\<lparr>tctx := (tctx s)(a := Cancel (tctx s a))\<rparr>)"
    by simp
  show ?thesis unfolding s1
    by (intro consistent_step_env [OF c]) (simp_all add: set_del_def Cancel_def)
next
  case DelContextsDelete
  with st have s1: "s1 = set_del n taskID DelRepoLoad
                            (s\<lparr>contexts := (contexts s)(taskID := None)\<rparr>)"
    by simp
  show ?thesis unfolding s1
    by (intro consistent_step_env [OF c]) (simp_all add: set_del_def)
next
  case DelRepoLoad
  with st show ?thesis
    by (intro consistent_step_env [OF c]) (auto simp: set_del_def split: if_splits)
next
  case DelRepoDelete
  with st have s1: "s1 = set_del n taskID (DelReturned None)
                            (s\<lparr>repo := (repo s)(taskID := None)\<rparr>)"
    by simp
  show ?thesis unfolding s1
    by (intro consistent_step_env [OF c]) (simp_all add: set_del_def)
next
  case (DelReturned e)
  with st show ?thesis by simp
qed

lemma consistent_create:
  assumes c: "consistent s" and st: "step (CallCreateTask i name) s = Some s1"
  shows "consistent s1"
proof -
  let ?p0 = "\<lparr>p_pc = CreateLoad,
              p_task = (SetStatus StatusProcessing (NewTask i [WithName name]))
                         \<lparr>CreatedAt := clock s\<rparr>,
              p_ctx = 0, p_wd = 0, p_start = 0, p_elapsed = 0, p_tick = 0\<rparr>"
  from st have fresh: "procs s i = None" and s1: "s1 = set_proc i ?p0 s"
    by (auto split: if_splits)
  from c fresh have none: "repo s i = None \<and> contexts s i = None"
    by (simp add: consistent_def)
  have 1: "\<forall>j q. procs s1 j = Some q \<longrightarrow> proc_ok s1 j q"
  proof (intro allI impI)
    fix j q assume a: "procs s1 j = Some q"
    show "proc_ok s1 j q"
    proof (cases "j = i")
      case True
      with a s1 have "q = ?p0" by (simp add: set_proc_def)
      with True none s1 show ?thesis
        by (simp add: proc_ok_def set_proc_def NewTask_def WithName_def SetStatus_def)
    next
      case False
      with a s1 have "procs s j = Some q" by (simp add: set_proc_def)
      then have "proc_ok s j q" by (rule consistent_proc_ok [OF c])
      then show ?thesis using s1 by (intro proc_ok_frame [of s j q s1]) (auto simp: set_proc_def)
    qed
  qed
  have 2: "\<forall>j. procs s1 j = None \<longrightarrow> repo s1 j = None \<and> contexts s1 j = None"
    using c s1 by (auto simp: consistent_def set_proc_def split: if_splits)
  have 3: "\<forall>j k q r. procs s1 j = Some q \<and> procs s1 k = Some r
             \<and> \<not> before_register (p_pc q) \<and> \<not> before_register (p_pc r)
             \<and> p_ctx q = p_ctx r \<longrightarrow> j = k"
  proof (intro allI impI)
    fix j k q r
    assume h: "procs s1 j = Some q \<and> procs s1 k = Some r
             \<and> \<not> before_register (p_pc q) \<and> \<not> before_register (p_pc r)
             \<and> p_ctx q = p_ctx r"
    have ji: "j \<noteq> i" using h s1 by (auto simp: set_proc_def)
    have ki: "k \<noteq> i" using h s1 by (auto simp: set_proc_def)
    from ji ki h s1 have "procs s j = Some q \<and> procs s k = Some r" by (simp add: set_proc_def)
    moreover from c have "\<forall>i j p q. procs s i = Some p \<and> procs s j = Some q
             \<and> \<not> before_register (p_pc p) \<and> \<not> before_register (p_pc q)
             \<and> p_ctx p = p_ctx q \<longrightarrow> i = j" by (simp add: consistent_def)
    ultimately show "j = k" using h by blast
  qed
  have 4: "\<forall>a. nextCtx s1 \<le> a \<longrightarrow> tcStatus (tctx s1 a) = StatusUnset"
    using c s1 by (simp add: consistent_def set_proc_def)
  from 1 2 3 4 show ?thesis unfolding consistent_def by blast
qed

lemma consistent_step:
  assumes c: "consistent s" and st: "step a s = Some s1"
  shows "consistent s1"
proof (cases a)
  case (Advance d)
  with st show ?thesis by (intro consistent_step_env [OF c]) (auto split: if_splits)
next
  case (CallCreateTask i name)
  with c st show ?thesis using consistent_create by blast
next
  case (Step i)
  with st obtain p where "procs s i = Some p" "proc_step i p (p_pc p) s = Some s1"
    by (auto split: option.splits)
  then show ?thesis by (rule consistent_proc_step [OF c])
next
  case (Draw i r)
  with st obtain p where "procs s i = Some p" "draw_step i p r s = Some s1"
    by (auto split: option.splits)
  then show ?thesis by (rule consistent_draw_step [OF c])
next
  case (Tick i)
  with st obtain p where "procs s i = Some p" "tick_step i p s = Some s1"
    by (auto split: option.splits)
  then show ?thesis by (rule consistent_tick_step [OF c])
next
  case (CtxDone i)
  with st obtain p where "procs s i = Some p" "ctxdone_step i p s = Some s1"
    by (auto split: option.splits)
  then show ?thesis by (rule consistent_ctxdone_step [OF c])
next
  case (CallDeleteTask n taskID)
  with st show ?thesis
    by (intro consistent_step_env [OF c]) (auto simp: set_del_def split: if_splits)
next
  case (DeleteStep n)
  with st obtain taskID d where "delete_step n taskID d s = Some s1"
    by (auto split: option.splits)
  then show ?thesis by (rule consistent_delete_step [OF c])
next
  case (ShutdownCancel x)
  with st have "a = ShutdownCancel x" "x < nextCtx s"
    "s1 = s\<lparr>tctx := (tctx s)(x := Cancel (tctx s x))\<rparr>"
    by (auto split: if_splits)
  then have s1: "s1 = s\<lparr>tctx := (tctx s)(x := Cancel (tctx s x))\<rparr>" by simp
  show ?thesis unfolding s1
    by (intro consistent_step_env [OF c]) (simp_all add: Cancel_def)
qed

lemma consistent_run: "consistent s \<Longrightarrow> run as s = Some s1 \<Longrightarrow> consistent s1"
proof (induction as arbitrary: s)
  case Nil
  then show ?case by simp
next
  case (Cons a as)
  from Cons.prems(2) obtain s2 where 1: "step a s = Some s2" and 2: "run as s2 = Some s1"
    by (auto split: option.splits)
  from Cons.IH [OF consistent_step [OF Cons.prems(1) 1] 2] show ?case .
qed

lemma keyed_NewSystem: "keyed NewSystem"
  by (simp add: keyed_def NewSystem_def NewService_def Service.extend_def)

lemma keyed_proc_step: "keyed s \<Longrightarrow> proc_step i p c s = Some s1 \<Longrightarrow> keyed s1"
  by (cases c) (auto simp: keyed_def set_proc_def mark_def Let_def split: if_splits)

lemma keyed_delete_step: "keyed s \<Longrightarrow> delete_step n taskID d s = Some s1 \<Longrightarrow> keyed s1"
  by (cases d)
     (auto simp: keyed_def set_del_def Repository_GetByID_def loadTaskContext_def
       split: option.splits if_splits)

lemma keyed_step: "keyed s \<Longrightarrow> step a s = Some s1 \<Longrightarrow> keyed s1"
proof (cases a)
  case (Step i)
  assume k: "keyed s" and st: "step a s = Some s1"
  with Step obtain p where "proc_step i p (p_pc p) s = Some s1" by (auto split: option.splits)
  with k show ?thesis by (rule keyed_proc_step)
next
  case (DeleteStep n)
  assume k: "keyed s" and st: "step a s = Some s1"
  with DeleteStep obtain taskID d where "delete_step n taskID d s = Some s1"
    by (auto split: option.splits)
  with k show ?thesis by (rule keyed_delete_step)
qed (auto simp: keyed_def set_proc_def set_del_def draw_step_def tick_step_def ctxdone_step_def
      Let_def split: if_splits option.splits)

lemma keyed_run: "keyed s \<Longrightarrow> run as s = Some s1 \<Longrightarrow> keyed s1"
proof (induction as arbitrary: s)
  case Nil
  then show ?case by simp
next
  case (Cons a as)
  from Cons.prems(2) obtain s2 where 1: "step a s = Some s2" and 2: "run as s2 = Some s1"
    by (auto split: option.splits)
  from Cons.IH [OF keyed_step [OF Cons.prems(1) 1] 2] show ?case .
qed

lemma effect_env:
  assumes "procs s1 = procs s"
    and "\<forall>j. repo s1 j = repo s j \<or> repo s1 j = None"
    and "\<forall>a. tcStatus (tctx s1 a) = tcStatus (tctx s a)"
  shows "effect s s1"
proof -
  have 1: "\<forall>i p. procs s i = Some p \<longrightarrow>
         (\<exists>p1. procs s1 i = Some p1
            \<and> (\<not> may_store (p_pc p) \<longrightarrow>
                  \<not> may_store (p_pc p1) \<and> (repo s1 i = repo s i \<or> repo s1 i = None))
            \<and> (\<not> before_register (p_pc p) \<longrightarrow>
                  \<not> before_register (p_pc p1) \<and> p_ctx p1 = p_ctx p))"
    using assms(1) assms(2) by simp
  have 3: "\<forall>i t t1. repo s i = Some t \<and> repo s1 i = Some t1 \<and> Status t1 \<noteq> Status t \<longrightarrow>
             Status t = StatusProcessing \<and> terminal (Status t1)"
  proof (intro allI impI)
    fix i t t1
    assume h: "repo s i = Some t \<and> repo s1 i = Some t1 \<and> Status t1 \<noteq> Status t"
    with assms(2) [rule_format, of i] have "t1 = t" by auto
    with h show "Status t = StatusProcessing \<and> terminal (Status t1)" by simp
  qed
  from 1 3 assms(3) show ?thesis unfolding effect_def by simp
qed

lemma effect_proc:
  assumes "procs s i = Some p"
    and "procs s1 = (procs s)(i \<mapsto> p1)"
    and "\<forall>j. j \<noteq> i \<longrightarrow> repo s1 j = repo s j"
    and "\<not> may_store (p_pc p) \<longrightarrow>
           \<not> may_store (p_pc p1) \<and> (repo s1 i = repo s i \<or> repo s1 i = None)"
    and "\<not> before_register (p_pc p) \<longrightarrow> \<not> before_register (p_pc p1) \<and> p_ctx p1 = p_ctx p"
    and "\<forall>a. tcStatus (tctx s1 a) \<noteq> tcStatus (tctx s a) \<longrightarrow>
             (tcStatus (tctx s a) = StatusUnset \<and> tcStatus (tctx s1 a) = StatusProcessing)
             \<or> (tcStatus (tctx s a) = StatusProcessing \<and> terminal (tcStatus (tctx s1 a)))"
    and "\<forall>t t1. repo s i = Some t \<and> repo s1 i = Some t1 \<and> Status t1 \<noteq> Status t \<longrightarrow>
             Status t = StatusProcessing \<and> terminal (Status t1)"
  shows "effect s s1"
proof -
  have 1: "\<forall>j q. procs s j = Some q \<longrightarrow>
         (\<exists>q1. procs s1 j = Some q1
            \<and> (\<not> may_store (p_pc q) \<longrightarrow>
                  \<not> may_store (p_pc q1) \<and> (repo s1 j = repo s j \<or> repo s1 j = None))
            \<and> (\<not> before_register (p_pc q) \<longrightarrow>
                  \<not> before_register (p_pc q1) \<and> p_ctx q1 = p_ctx q))"
  proof (intro allI impI)
    fix j q assume q: "procs s j = Some q"
    show "\<exists>q1. procs s1 j = Some q1
            \<and> (\<not> may_store (p_pc q) \<longrightarrow>
                  \<not> may_store (p_pc q1) \<and> (repo s1 j = repo s j \<or> repo s1 j = None))
            \<and> (\<not> before_register (p_pc q) \<longrightarrow>
                  \<not> before_register (p_pc q1) \<and> p_ctx q1 = p_ctx q)"
    proof (cases "j = i")
      case True
      with q assms(1) have "q = p" by simp
      with True assms(2) assms(4) assms(5) show ?thesis by simp
    next
      case False
      with q assms(2) assms(3) show ?thesis by simp
    qed
  qed
  have 3: "\<forall>j t t1. repo s j = Some t \<and> repo s1 j = Some t1 \<and> Status t1 \<noteq> Status t \<longrightarrow>
             Status t = StatusProcessing \<and> terminal (Status t1)"
  proof (intro allI impI)
    fix j t t1
    assume h: "repo s j = Some t \<and> repo s1 j = Some t1 \<and> Status t1 \<noteq> Status t"
    show "Status t = StatusProcessing \<and> terminal (Status t1)"
    proof (cases "j = i")
      case True
      with h assms(7) show ?thesis by blast
    next
      case False
      with assms(3) h have "t1 = t" by auto
      with h show ?thesis by simp
    qed
  qed
  from 1 3 assms(6) show ?thesis unfolding effect_def by blast
qed

lemma effect_proc_step:
  assumes c: "consistent s" and p: "procs s i = Some p"
    and st: "proc_step i p (p_pc p) s = Some s1"
  shows "effect s s1"
proof -
  note ok = consistent_proc_ok [OF c p]
  note un = consistent_unallocated [OF c]
  show ?thesis
  proof (cases "p_pc p")
    case CreateLoad
    with st ok show ?thesis
      by (intro effect_proc [OF p, where ?p1.0 = "p\<lparr>p_pc := CreateStore\<rparr>"])
         (auto simp: proc_ok_def set_proc_def)
  next
    case CreateStore
    with st ok show ?thesis
      by (intro effect_proc [OF p, where
            ?p1.0 = "p\<lparr>p_task := (p_task p)\<lparr>CreatedAt := clock s\<rparr>, p_pc := Register\<rparr>"])
         (auto simp: proc_ok_def set_proc_def Let_def)
  next
    case CreateFailed
    with st show ?thesis by simp
  next
    case Register
    with st ok show ?thesis
      by (intro effect_proc [OF p, where ?p1.0 = "p\<lparr>p_ctx := nextCtx s, p_pc := WgAdd\<rparr>"])
         (auto simp: proc_ok_def set_proc_def un Let_def split: if_splits)
  next
    case WgAdd
    with st ok show ?thesis
      by (intro effect_proc [OF p, where ?p1.0 = "p\<lparr>p_pc := Spawn\<rparr>"])
         (auto simp: proc_ok_def set_proc_def)
  next
    case Spawn
    with st ok show ?thesis
      by (intro effect_proc [OF p, where ?p1.0 = "p\<lparr>p_pc := Start\<rparr>"])
         (auto simp: proc_ok_def set_proc_def)
  next
    case Start
    with st show ?thesis by simp
  next
    case Select
    with st show ?thesis by simp
  next
    case UpdateLoad
    show ?thesis
    proof (cases "repo s (ID (p_task p)) = None")
      case True
      with UpdateLoad st ok show ?thesis
        by (intro effect_proc [OF p, where
              ?p1.0 = "p\<lparr>p_task := (p_task p)\<lparr>Status := StatusFailed,
                                                ProcessingTime := p_elapsed p\<rparr>,
                          p_pc := FinalizeLoad StatusFailed\<rparr>"])
           (auto simp: proc_ok_def set_proc_def)
    next
      case False
      with UpdateLoad st ok show ?thesis
        by (intro effect_proc [OF p, where ?p1.0 = "p\<lparr>p_pc := UpdateStore\<rparr>"])
           (auto simp: proc_ok_def set_proc_def)
    qed
  next
    case UpdateStore
    with st ok show ?thesis
      by (intro effect_proc [OF p, where ?p1.0 = "p\<lparr>p_pc := Select\<rparr>"])
         (auto simp: proc_ok_def set_proc_def)
  next
    case (FinalizeLoad x)
    show ?thesis
    proof (cases "repo s (ID (p_task p)) = None")
      case True
      with FinalizeLoad st ok show ?thesis
        by (intro effect_proc [OF p, where ?p1.0 = "p\<lparr>p_pc := MarkFinished x\<rparr>"])
           (auto simp: proc_ok_def set_proc_def)
    next
      case False
      with FinalizeLoad st ok show ?thesis
        by (intro effect_proc [OF p, where ?p1.0 = "p\<lparr>p_pc := FinalizeStore x\<rparr>"])
           (auto simp: proc_ok_def set_proc_def)
    qed
  next
    case (FinalizeStore x)
    with st ok show ?thesis
      by (intro effect_proc [OF p, where ?p1.0 = "p\<lparr>p_pc := MarkFinished x\<rparr>"])
         (auto simp: proc_ok_def set_proc_def)
  next
    case (MarkFinished x)
    with st ok show ?thesis
      by (intro effect_proc [OF p, where ?p1.0 = "p\<lparr>p_pc := DeferWgDone\<rparr>"])
         (auto simp: proc_ok_def set_proc_def mark_def markFinished_def split: if_splits)
  next
    case DeferWgDone
    with st ok show ?thesis
      by (intro effect_proc [OF p, where ?p1.0 = "p\<lparr>p_pc := DeferIsFinished\<rparr>"])
         (auto simp: proc_ok_def set_proc_def)
  next
    case DeferIsFinished
    with st ok show ?thesis
      by (intro effect_proc [OF p, where ?p1.0 = "p\<lparr>p_pc := DeferDelete\<rparr>"])
         (auto simp: proc_ok_def set_proc_def IsFinished_def)
  next
    case DeferMarkFinished
    with ok show ?thesis by (simp add: proc_ok_def)
  next
    case DeferDelete
    with st ok show ?thesis
      by (intro effect_proc [OF p, where ?p1.0 = "p\<lparr>p_pc := Exited\<rparr>"])
         (auto simp: proc_ok_def set_proc_def)
  next
    case Exited
    with st show ?thesis by simp
  qed
qed

lemma effect_tick_step:
  assumes c: "consistent s" and p: "procs s i = Some p" and st: "tick_step i p s = Some s1"
  shows "effect s s1"
proof -
  note ok = consistent_proc_ok [OF c p]
  from st have sel: "p_pc p = Select" by (simp add: tick_step_def split: if_splits)
  let ?e = "Since (clock s) (p_start p)"
  let ?p1 = "p\<lparr>p_tick := p_tick p + tickerInterval, p_elapsed := ?e,
                p_task := (p_task p)\<lparr>ProcessingTime := ?e\<rparr>\<rparr>"
  show ?thesis
  proof (cases "?e \<ge> p_wd p")
    case True
    with sel st ok show ?thesis
      by (intro effect_proc [OF p, where
            ?p1.0 = "?p1\<lparr>p_task := (p_task ?p1)\<lparr>Status := StatusDone, ProcessingTime := ?e\<rparr>,
                         p_pc := FinalizeLoad StatusDone\<rparr>"])
         (auto simp: proc_ok_def set_proc_def tick_step_def Let_def split: if_splits)
  next
    case False
    with sel st ok show ?thesis
      by (intro effect_proc [OF p, where ?p1.0 = "?p1\<lparr>p_pc := UpdateLoad\<rparr>"])
         (auto simp: proc_ok_def set_proc_def tick_step_def Let_def split: if_splits)
  qed
qed

lemma effect_ctxdone_step:
  assumes c: "consistent s" and p: "procs s i = Some p" and st: "ctxdone_step i p s = Some s1"
  shows "effect s s1"
proof -
  note ok = consistent_proc_ok [OF c p]
  from st have sel: "p_pc p = Select" by (simp add: ctxdone_step_def split: if_splits)
  with st ok show ?thesis
    by (intro effect_proc [OF p, where
          ?p1.0 = "p\<lparr>p_task := (p_task p)\<lparr>Status := StatusFailed,
                                            ProcessingTime := Since (clock s) (p_start p)\<rparr>,
                      p_pc := FinalizeLoad StatusFailed\<rparr>"])
       (auto simp: proc_ok_def set_proc_def ctxdone_step_def split: if_splits)
qed

lemma effect_draw_step:
  assumes c: "consistent s" and p: "procs s i = Some p" and st: "draw_step i p r s = Some s1"
  shows "effect s s1"
proof -
  note ok = consistent_proc_ok [OF c p]
  from st have sel: "p_pc p = Start" by (simp add: draw_step_def split: if_splits)
  with st ok show ?thesis
    by (intro effect_proc [OF p, where
          ?p1.0 = "p\<lparr>p_wd := workDuration r, p_tick := clock s + tickerInterval,
                      p_start := clock s, p_pc := Select\<rparr>"])
       (auto simp: proc_ok_def set_proc_def draw_step_def split: if_splits)
qed

lemma effect_delete_step:
  assumes st: "delete_step n taskID d s = Some s1"
  shows "effect s s1"
proof (cases d)
  case DelGetByID
  with st show ?thesis
    by (intro effect_env) (auto simp: set_del_def Repository_GetByID_def split: option.splits)
next
  case DelLoadContext
  with st show ?thesis
    by (intro effect_env) (auto simp: set_del_def loadTaskContext_def split: option.splits)
next
  case (DelCancel a)
  with st have s1: "s1 = set_del n taskID DelContextsDelete
                            (s\<lparr>tctx := (tctx s)(a := Cancel (tctx s a))\<rparr>)"
    by simp
  show ?thesis unfolding s1 by (intro effect_env) (simp_all add: set_del_def Cancel_def)
next
  case DelContextsDelete
  with st have s1: "s1 = set_del n taskID DelRepoLoad
                            (s\<lparr>contexts := (contexts s)(taskID := None)\<rparr>)"
    by simp
  show ?thesis unfolding s1 by (intro effect_env) (simp_all add: set_del_def)
next
  case DelRepoLoad
  with st show ?thesis
    by (intro effect_env) (auto simp: set_del_def split: if_splits)
next
  case DelRepoDelete
  with st have s1: "s1 = set_del n taskID (DelReturned None)
                            (s\<lparr>repo := (repo s)(taskID := None)\<rparr>)"
    by simp
  show ?thesis unfolding s1 by (intro effect_env) (simp_all add: set_del_def)
next
  case (DelReturned e)
  with st show ?thesis by simp
qed

lemma effect_create:
  assumes st: "step (CallCreateTask i name) s = Some s1"
  shows "effect s s1"
proof -
  from st obtain p0 where fresh: "procs s i = None" and s1: "s1 = set_proc i p0 s"
    by (auto split: if_splits)
  have 1: "\<forall>j q. procs s j = Some q \<longrightarrow>
         (\<exists>q1. procs s1 j = Some q1
            \<and> (\<not> may_store (p_pc q) \<longrightarrow>
                  \<not> may_store (p_pc q1) \<and> (repo s1 j = repo s j \<or> repo s1 j = None))
            \<and> (\<not> before_register (p_pc q) \<longrightarrow>
                  \<not> before_register (p_pc q1) \<and> p_ctx q1 = p_ctx q))"
    using fresh s1 by (auto simp: set_proc_def)
  have 2: "\<forall>a. tcStatus (tctx s1 a) = tcStatus (tctx s a)" using s1 by (simp add: set_proc_def)
  have 3: "repo s1 = repo s" using s1 by (simp add: set_proc_def)
  from 1 2 3 show ?thesis unfolding effect_def by auto
qed

lemma effect_step:
  assumes c: "consistent s" and st: "step a s = Some s1"
  shows "effect s s1"
proof (cases a)
  case (Advance d)
  with st show ?thesis by (intro effect_env) (auto split: if_splits)
next
  case (CallCreateTask i name)
  with st show ?thesis using effect_create by blast
next
  case (Step i)
  with st obtain p where "procs s i = Some p" "proc_step i p (p_pc p) s = Some s1"
    by (auto split: option.splits)
  then show ?thesis by (rule effect_proc_step [OF c])
next
  case (Draw i r)
  with st obtain p where "procs s i = Some p" "draw_step i p r s = Some s1"
    by (auto split: option.splits)
  then show ?thesis by (rule effect_draw_step [OF c])
next
  case (Tick i)
  with st obtain p where "procs s i = Some p" "tick_step i p s = Some s1"
    by (auto split: option.splits)
  then show ?thesis by (rule effect_tick_step [OF c])
next
  case (CtxDone i)
  with st obtain p where "procs s i = Some p" "ctxdone_step i p s = Some s1"
    by (auto split: option.splits)
  then show ?thesis by (rule effect_ctxdone_step [OF c])
next
  case (CallDeleteTask n taskID)
  with st show ?thesis
    by (intro effect_env) (auto simp: set_del_def split: if_splits)
next
  case (DeleteStep n)
  with st obtain taskID d where "delete_step n taskID d s = Some s1"
    by (auto split: option.splits)
  then show ?thesis by (rule effect_delete_step)
next
  case (ShutdownCancel x)
  with st have s1: "s1 = s\<lparr>tctx := (tctx s)(x := Cancel (tctx s x))\<rparr>"
    by (auto split: if_splits)
  show ?thesis unfolding s1 by (intro effect_env) (simp_all add: Cancel_def)
qed

text \<open>Once the process of a task is past its last write, its record only ever disappears.\<close>

lemma past_store_run:
  assumes "consistent s" and "run as s = Some s1"
    and "procs s i = Some p" and "\<not> may_store (p_pc p)"
  shows "(\<exists>p1. procs s1 i = Some p1 \<and> \<not> may_store (p_pc p1))
         \<and> (repo s1 i = repo s i \<or> repo s1 i = None)"
  using assms
proof (induction as arbitrary: s p)
  case Nil
  then show ?case by simp
next
  case (Cons a as)
  from Cons.prems(2) obtain s2 where 1: "step a s = Some s2" and 2: "run as s2 = Some s1"
    by (auto split: option.splits)
  from effect_step [OF Cons.prems(1) 1] Cons.prems(3) Cons.prems(4)
  obtain p2 where p2: "procs s2 i = Some p2" "\<not> may_store (p_pc p2)"
    and r2: "repo s2 i = repo s i \<or> repo s2 i = None"
    unfolding effect_def by blast
  from Cons.IH [OF consistent_step [OF Cons.prems(1) 1] 2 p2]
  have "(\<exists>p1. procs s1 i = Some p1 \<and> \<not> may_store (p_pc p1))
         \<and> (repo s1 i = repo s2 i \<or> repo s1 i = None)" .
  with r2 show ?case by auto
qed

lemma registered_run:
  assumes "consistent s" and "run as s = Some s1"
    and "procs s i = Some p" and "\<not> before_register (p_pc p)"
  shows "\<exists>p1. procs s1 i = Some p1 \<and> \<not> before_register (p_pc p1) \<and> p_ctx p1 = p_ctx p"
  using assms
proof (induction as arbitrary: s p)
  case Nil
  then show ?case by simp
next
  case (Cons a as)
  from Cons.prems(2) obtain s2 where 1: "step a s = Some s2" and 2: "run as s2 = Some s1"
    by (auto split: option.splits)
  from effect_step [OF Cons.prems(1) 1] Cons.prems(3) Cons.prems(4)
  obtain p2 where p2: "procs s2 i = Some p2" "\<not> before_register (p_pc p2)"
    and c2: "p_ctx p2 = p_ctx p"
    unfolding effect_def by blast
  from Cons.IH [OF consistent_step [OF Cons.prems(1) 1] 2 p2] c2 show ?case by simp
qed

lemma terminal_ctx_run:
  assumes "consistent s" and "run as s = Some s1" and "terminal (tcStatus (tctx s a))"
  shows "tcStatus (tctx s1 a) = tcStatus (tctx s a)"
  using assms
proof (induction as arbitrary: s)
  case Nil
  then show ?case by simp
next
  case (Cons x as)
  from Cons.prems(2) obtain s2 where 1: "step x s = Some s2" and 2: "run as s2 = Some s1"
    by (auto split: option.splits)
  from effect_step [OF Cons.prems(1) 1] Cons.prems(3)
  have e: "tcStatus (tctx s2 a) = tcStatus (tctx s a)"
    unfolding effect_def terminal_def by auto
  from Cons.IH [OF consistent_step [OF Cons.prems(1) 1] 2] e Cons.prems(3) show ?case by simp
qed

lemma updateTaskProcessingTime_keeps:
  "Status (updateTaskProcessingTime s now t) = Status t
   \<and> ID (updateTaskProcessingTime s now t) = ID t
   \<and> (terminal (Status t) \<longrightarrow> updateTaskProcessingTime s now t = t)"
  by (auto simp: updateTaskProcessingTime_def IsProcessing_def terminal_def loadTaskContext_def
      split: option.splits)

lemma consistent_reachable: "run pre NewSystem = Some s \<Longrightarrow> consistent s \<and> keyed s"
  using consistent_run [OF consistent_NewSystem] keyed_run [OF keyed_NewSystem] by blast

lemma terminal_record_past_store:
  assumes "consistent s" and "repo s i = Some t" and "terminal (Status t)"
  shows "\<exists>p. procs s i = Some p \<and> \<not> may_store (p_pc p)"
proof -
  from assms(1) assms(2) obtain p where p: "procs s i = Some p"
    by (cases "procs s i") (auto simp: consistent_def)
  from consistent_proc_ok [OF assms(1) p] assms(2) assms(3) have "\<not> may_store (p_pc p)"
    by (auto simp: proc_ok_def terminal_def)
  with p show ?thesis by blast
qed

lemma terminal_record_run:
  assumes "consistent s" and "run post s = Some s1"
    and "repo s i = Some t" and "terminal (Status t)"
  shows "repo s1 i = None \<or> repo s1 i = Some t"
proof -
  from terminal_record_past_store [OF assms(1) assms(3) assms(4)]
  obtain p where "procs s i = Some p" "\<not> may_store (p_pc p)" by blast
  from past_store_run [OF assms(1) assms(2) this] assms(3) show ?thesis by auto
qed

lemma registered_context:
  assumes "consistent s" and "contexts s i = Some a"
  shows "\<exists>p. procs s i = Some p \<and> \<not> before_register (p_pc p) \<and> p_ctx p = a
           \<and> tcStatus (tctx s a) \<noteq> StatusUnset"
proof -
  from assms obtain p where p: "procs s i = Some p"
    by (cases "procs s i") (auto simp: consistent_def)
  note ok = consistent_proc_ok [OF assms(1) p]
  from ok assms(2) have nb: "\<not> before_register (p_pc p)" by (auto simp: proc_ok_def)
  with ok assms(2) have a: "p_ctx p = a" by (auto simp: proc_ok_def)
  from ok have so: "status_ok (p_pc p) (p_task p)" by (simp add: proc_ok_def)
  from nb so have "unmarked (p_pc p) \<or> marked (p_pc p)" by (cases "p_pc p") simp_all
  with ok a have "tcStatus (tctx s a) \<noteq> StatusUnset" by (auto simp: proc_ok_def terminal_def)
  with p nb a show ?thesis by blast
qed

lemma registered_context_run:
  assumes "consistent s" and "run post s = Some s1" and "contexts s i = Some a"
  shows "contexts s1 i = None \<or> contexts s1 i = Some a"
proof -
  from registered_context [OF assms(1) assms(3)]
  obtain p where p: "procs s i = Some p" "\<not> before_register (p_pc p)" and a: "p_ctx p = a"
    by blast
  from registered_run [OF assms(1) assms(2) p] a
  obtain p1 where p1: "procs s1 i = Some p1" "\<not> before_register (p_pc p1)" "p_ctx p1 = a"
    by auto
  from consistent_proc_ok [OF consistent_run [OF assms(1) assms(2)] p1(1)] p1(2) p1(3)
  show ?thesis by (auto simp: proc_ok_def)
qed

lemma ListTasks_member:
  assumes "ListTasks s now ks = Inr tasks" and "t \<in> set tasks"
  shows "\<exists>k t0. repo s k = Some t0 \<and> t = updateTaskProcessingTime s now t0"
proof -
  have mf: "\<exists>k. st k = Some x" if "x \<in> set (List.map_filter st ks)" for x and st :: task_store
    using that by (auto simp: List.map_filter_def)
  from assms obtain x where x: "x \<in> set (List.map_filter (repo s) ks)"
    and t: "t = updateTaskProcessingTime s now x"
    by (auto simp: ListTasks_def Repository_GetAll_def)
  from mf [OF x] t show ?thesis by blast
qed

text \<open>
  C3, as the code has it. In every state the system reaches, and for every schedule that
  follows: a record that the store holds as \<open>DONE\<close> or \<open>FAILED\<close> is from then on either
  that very record or gone, so that a \<open>GetTask\<close> that has returned a task as \<open>DONE\<close> or
  \<open>FAILED\<close> later returns that same task or the not-found error, and a task that
  \<open>ListTasks\<close> has listed as \<open>DONE\<close> or \<open>FAILED\<close> is later listed unchanged if at all; and a
  \<open>GetTaskStatus\<close> that has returned \<open>DONE\<close> or \<open>FAILED\<close> later returns the same status or
  reports no context. In one step the status of a stored record changes only from
  \<open>PROCESSING\<close> to \<open>DONE\<close> or \<open>FAILED\<close>, and so does the status \<open>GetTaskStatus\<close> returns.
\<close>

theorem terminal_status_is_final:
  assumes "run pre NewSystem = Some s"
  shows
  "(\<forall>post s1. run post s = Some s1 \<longrightarrow>
      (\<forall>i t. repo s i = Some t \<and> terminal (Status t) \<longrightarrow>
           repo s1 i = None \<or> repo s1 i = Some t)
      \<and> (\<forall>i t now now1. GetTask s now i = Inr t \<and> terminal (Status t) \<longrightarrow>
           GetTask s1 now1 i = Inl (Wrap ''task not found'' (NotFound i))
           \<or> GetTask s1 now1 i = Inr t)
      \<and> (\<forall>ks ks1 now now1 tasks tasks1 t t1.
           ListTasks s now ks = Inr tasks \<and> ListTasks s1 now1 ks1 = Inr tasks1
           \<and> t \<in> set tasks \<and> terminal (Status t) \<and> t1 \<in> set tasks1 \<and> ID t1 = ID t
           \<longrightarrow> t1 = t)
      \<and> (\<forall>i st. GetTaskStatus s i = (st, True) \<and> terminal st \<longrightarrow>
           GetTaskStatus s1 i = (st, True) \<or> GetTaskStatus s1 i = (StatusUnset, False)))
   \<and> (\<forall>a s1. step a s = Some s1 \<longrightarrow>
      (\<forall>i t t1. repo s i = Some t \<and> repo s1 i = Some t1 \<and> Status t1 \<noteq> Status t \<longrightarrow>
           Status t = StatusProcessing \<and> terminal (Status t1))
      \<and> (\<forall>i st st1. GetTaskStatus s i = (st, True) \<and> GetTaskStatus s1 i = (st1, True)
           \<and> st1 \<noteq> st \<longrightarrow> st = StatusProcessing \<and> terminal st1))"
proof (intro conjI allI impI)
  note c = consistent_reachable [OF assms, THEN conjunct1]
  note k = consistent_reachable [OF assms, THEN conjunct2]
  {
    fix post s1 i t
    assume r: "run post s = Some s1" and h: "repo s i = Some t \<and> terminal (Status t)"
    from terminal_record_run [OF c r] h show "repo s1 i = None \<or> repo s1 i = Some t" by blast
  next
    fix post s1 i t now now1
    assume r: "run post s = Some s1" and h: "GetTask s now i = Inr t \<and> terminal (Status t)"
    from h obtain t0 where t0: "repo s i = Some t0" and t: "t = updateTaskProcessingTime s now t0"
      by (auto simp: GetTask_def Repository_GetByID_def split: option.splits)
    from t h updateTaskProcessingTime_keeps [of s now t0] have tt: "terminal (Status t0)" by simp
    with t updateTaskProcessingTime_keeps [of s now t0] have e: "t = t0" by simp
    from terminal_record_run [OF c r t0 tt] e
    have "repo s1 i = None \<or> repo s1 i = Some t" by simp
    with h updateTaskProcessingTime_keeps [of s1 now1 t]
    show "GetTask s1 now1 i = Inl (Wrap ''task not found'' (NotFound i))
           \<or> GetTask s1 now1 i = Inr t"
      by (auto simp: GetTask_def Repository_GetByID_def)
  next
    fix post s1 ks ks1 now now1 tasks tasks1 t t1
    assume r: "run post s = Some s1"
      and h: "ListTasks s now ks = Inr tasks \<and> ListTasks s1 now1 ks1 = Inr tasks1
           \<and> t \<in> set tasks \<and> terminal (Status t) \<and> t1 \<in> set tasks1 \<and> ID t1 = ID t"
    from h ListTasks_member [of s now ks tasks t]
    obtain i t0 where t0: "repo s i = Some t0" and t: "t = updateTaskProcessingTime s now t0"
      by blast
    from h ListTasks_member [of s1 now1 ks1 tasks1 t1]
    obtain j u0 where u0: "repo s1 j = Some u0" and u: "t1 = updateTaskProcessingTime s1 now1 u0"
      by blast
    from t h updateTaskProcessingTime_keeps [of s now t0] have tt: "terminal (Status t0)" by simp
    with t updateTaskProcessingTime_keeps [of s now t0] have e: "t = t0" by simp
    from k t0 have i: "ID t0 = i" by (simp add: keyed_def)
    from keyed_run [OF k r] u0 have j: "ID u0 = j" by (simp add: keyed_def)
    from u updateTaskProcessingTime_keeps [of s1 now1 u0] h e i j have "j = i" by simp
    with terminal_record_run [OF c r t0 tt] u0 have "u0 = t0" by auto
    with u tt e updateTaskProcessingTime_keeps [of s1 now1 t0] show "t1 = t" by simp
  next
    fix post s1 i st
    assume r: "run post s = Some s1" and h: "GetTaskStatus s i = (st, True) \<and> terminal st"
    from h obtain a where a: "contexts s i = Some a" and st: "st = tcStatus (tctx s a)"
      by (auto simp: GetTaskStatus_def loadTaskContext_def split: option.splits)
    from h st have "terminal (tcStatus (tctx s a))" by simp
    from terminal_ctx_run [OF c r this] st have e: "tcStatus (tctx s1 a) = st" by simp
    from registered_context_run [OF c r a] e
    show "GetTaskStatus s1 i = (st, True) \<or> GetTaskStatus s1 i = (StatusUnset, False)"
      by (auto simp: GetTaskStatus_def loadTaskContext_def)
  next
    fix a s1 i t t1
    assume r: "step a s = Some s1"
      and h: "repo s i = Some t \<and> repo s1 i = Some t1 \<and> Status t1 \<noteq> Status t"
    from effect_step [OF c r] h show "Status t = StatusProcessing" "terminal (Status t1)"
      unfolding effect_def by blast+
  next
    fix x s1 i st st1
    assume r: "step x s = Some s1"
      and h: "GetTaskStatus s i = (st, True) \<and> GetTaskStatus s1 i = (st1, True) \<and> st1 \<noteq> st"
    from h obtain a where a: "contexts s i = Some a" and st: "st = tcStatus (tctx s a)"
      by (auto simp: GetTaskStatus_def loadTaskContext_def split: option.splits)
    from h obtain a1 where a1: "contexts s1 i = Some a1" and st1: "st1 = tcStatus (tctx s1 a1)"
      by (auto simp: GetTaskStatus_def loadTaskContext_def split: option.splits)
    from r have rr: "run [x] s = Some s1" by simp
    from registered_context_run [OF c rr a] a1 have e: "a1 = a" by simp
    from registered_context [OF c a] have nu: "tcStatus (tctx s a) \<noteq> StatusUnset" by blast
    from effect_step [OF c r] have
      "tcStatus (tctx s1 a) \<noteq> tcStatus (tctx s a) \<longrightarrow>
             (tcStatus (tctx s a) = StatusUnset \<and> tcStatus (tctx s1 a) = StatusProcessing)
             \<or> (tcStatus (tctx s a) = StatusProcessing \<and> terminal (tcStatus (tctx s1 a)))"
      unfolding effect_def by blast
    with h st st1 e nu show "st = StatusProcessing" "terminal st1" by auto
  }
qed

theorem terminal_status_is_final_witness:
  "run finalized_schedule NewSystem \<noteq> None
   \<and> map_option Status (repo (the (run finalized_schedule NewSystem)) 7) = Some StatusFailed
   \<and> repo (the (run (finalized_schedule @ [Step 7, Step 7, Step 7, Step 7]) NewSystem)) 7
       = repo (the (run finalized_schedule NewSystem)) 7
   \<and> GetTaskStatus (the (run (finalized_schedule @ [Step 7]) NewSystem)) 7
       = (StatusFailed, True)
   \<and> GetTaskStatus (the (run (finalized_schedule @ [Step 7, Step 7, Step 7, Step 7]) NewSystem)) 7
       = (StatusUnset, False)"
proof -
  have r: "run finalized_schedule NewSystem = Some (the (run finalized_schedule NewSystem))"
    by (simp add: finalized_schedule_def create_and_start_def NewSystem_def NewService_def
        Service.extend_def set_proc_def draw_step_def tick_step_def ctxdone_step_def
        ctx_Done_def Cancel_def
        Second_def Nanosecond_def tickerInterval_def workDuration_def Minute_def Since_def
        NewTask_def WithName_def SetStatus_def defaultTimeToProcessTask_def Let_def)
  show ?thesis
    using terminal_status_is_final [OF r]
    by (simp add: finalized_schedule_def create_and_start_def NewSystem_def NewService_def
        Service.extend_def set_proc_def draw_step_def tick_step_def ctxdone_step_def
        ctx_Done_def Cancel_def mark_def markFinished_def
        Second_def Nanosecond_def tickerInterval_def workDuration_def Minute_def Since_def
        NewTask_def WithName_def SetStatus_def defaultTimeToProcessTask_def Let_def
        GetTaskStatus_def loadTaskContext_def IsFinished_def)
qed

text \<open>
  C3 as stated fails. \<open>Shutdown\<close> cancels the context of a running task and leaves it in
  the registry; the executor takes \<open>case <-ctx.Done()\<close> and \<open>finalizeTask\<close> writes the record
  as \<open>FAILED\<close>, so a \<open>GetTask\<close> now returns the task as \<open>FAILED\<close>. The executor has not yet
  called \<open>markFinished\<close>, so a \<open>GetTaskStatus\<close> made after that \<open>GetTask\<close> still returns
  \<open>PROCESSING\<close>, read from the task's context. (The same window is there between
  \<open>finalizeTask\<close> and \<open>markFinished\<close> when the task completes as \<open>DONE\<close>.)
\<close>

theorem status_read_after_terminal_counterexample:
  "map_option (\<lambda>s. map_sum (\<lambda>e. e) Status (GetTask s Second 7))
       (run finalized_schedule NewSystem) = Some (Inr StatusFailed)
   \<and> map_option (\<lambda>s. GetTaskStatus s 7)
       (run (finalized_schedule @ [Advance Nanosecond]) NewSystem)
       = Some (StatusProcessing, True)"
  by (simp add: finalized_schedule_def create_and_start_def NewSystem_def NewService_def
      Service.extend_def set_proc_def draw_step_def tick_step_def ctxdone_step_def
      ctx_Done_def Cancel_def
      Second_def Nanosecond_def tickerInterval_def workDuration_def Minute_def Since_def
      NewTask_def WithName_def SetStatus_def defaultTimeToProcessTask_def Let_def
      GetTask_def Repository_GetByID_def updateTaskProcessingTime_def IsProcessing_def
      GetTaskStatus_def loadTaskContext_def)

text \<open>
  C5, where the code goes wrong. The executor's \<open>Update\<close> has found the record; a
  \<open>DeleteTask\<close> for the task then runs from start to end, cancels the context, removes it
  from the registry, deletes the record and returns no error; the \<open>Update\<close> then stores its
  copy. The task was deleted before it completed, yet \<open>GetTask\<close> now returns it, as
  \<open>PROCESSING\<close>; and when the executor has seen the cancellation and returned, the record
  is still there, as \<open>FAILED\<close>.
\<close>

theorem DeleteTask_then_GetTask_finds_record:
  "map_option (\<lambda>s. (deleters s 0, GetTask s (2 * Second) 7)) (run race_schedule NewSystem)
     = Some (Some (7, DelReturned None),
             Inr \<lparr>ID = 7, Name = ''alpha'', Status = StatusProcessing, CreatedAt = 0,
                  ProcessingTime = Second\<rparr>)
   \<and> map_option (\<lambda>s. (map_option p_pc (procs s 7), GetTask s (2 * Second) 7))
        (run (race_schedule @ race_finish) NewSystem)
     = Some (Some Exited,
             Inr \<lparr>ID = 7, Name = ''alpha'', Status = StatusFailed, CreatedAt = 0,
                  ProcessingTime = Second\<rparr>)"
  by (simp add: race_schedule_def race_finish_def create_and_start_def NewSystem_def
      NewService_def Service.extend_def set_proc_def set_del_def draw_step_def tick_step_def
      ctxdone_step_def ctx_Done_def mark_def markFinished_def IsFinished_def
      Second_def Nanosecond_def tickerInterval_def workDuration_def Minute_def Since_def
      NewTask_def WithName_def SetStatus_def defaultTimeToProcessTask_def
      Repository_GetByID_def loadTaskContext_def Cancel_def GetTask_def
      updateTaskProcessingTime_def IsProcessing_def Let_def)

end
